theory Spec2Isabelle
  imports Complex_Main "HOL-Library.Sublist" "HOL-Library.Log_Nat"
begin

section \<open>The caching layer of the user store (module\_2/val\_system/cache\_layer.py)\<close>

text \<open>
  The development embeds the two classes of \<^verbatim>\<open>cache_layer.py\<close>:
  \<^verbatim>\<open>LRUCache\<close> (with its \<^verbatim>\<open>CacheEntry\<close>) and the part of
  \<^verbatim>\<open>CachedUserStore\<close> that writes and invalidates cache entries.

  Modelling decisions, all of them visible in the definitions below:
  \<^item> The \<^verbatim>\<open>OrderedDict\<close> is an association list, oldest entry first; the
    dictionary's uniqueness of keys is the predicate \<open>od_wf\<close>, preserved by every
    operation.
  \<^item> Each call of \<^verbatim>\<open>time.time()\<close> is a parameter of the operation that makes
    it. An operation that reads the clock several times takes a function from the
    index of the reading to the value read.
  \<^item> A finite \<^verbatim>\<open>float\<close> is the real number it denotes. The arithmetic on floats
    is the arithmetic on reals followed by the rounding \<open>fl\<close> of IEEE 754 binary64
    (to nearest, a tie going to the even significand). \<^verbatim>\<open>float('inf')\<close> is the
    constructor \<open>Inf_time\<close>. The conversion of an \<^verbatim>\<open>int\<close> that is too large for
    a float raises \<^verbatim>\<open>OverflowError\<close>.
  \<^item> Python's \<^verbatim>\<open>int\<close> is \<open>int\<close>. The three counters of the cache start at zero
    and are only incremented or reset: they are natural numbers.
  \<^item> A \<^verbatim>\<open>str\<close> is the list of the bytes of its UTF-8 encoding, on which
    equality, concatenation, \<^verbatim>\<open>startswith\<close>, \<^verbatim>\<open>endswith\<close> and the search for
    \<^verbatim>\<open>*\<close> are those of the string. \<^verbatim>\<open>str.lower\<close> is a parameter
    \<open>str_lower\<close> of the operations that call it, so that every theorem holds for
    the library's function, whatever it does to a letter.
  \<^item> An operation that can raise returns the exception, if any, together with the
    state the exception leaves behind.
  \<^item> The lock is not modelled: every operation is a function from the state before
    to the state after.
\<close>

subsection \<open>Errors\<close>

datatype py_error = KeyError string | OverflowError

subsection \<open>Floats\<close>

text \<open>The nearest integer, a tie going to the even one.\<close>

definition round_half_even :: "real \<Rightarrow> int" where
  "round_half_even y =
     (let f = \<lfloor>y\<rfloor>; r = y - of_int f
      in if r < 1 / 2 then f else if r > 1 / 2 then f + 1
         else if even f then f else f + 1)"

text \<open>For \<open>x > 0\<close>, the integer \<open>e\<close> with \<open>2 ^ e \<le> x < 2 ^ (e + 1)\<close>.\<close>

definition floor_log2 :: "real \<Rightarrow> int" where
  "floor_log2 x =
     (if 1 \<le> x then int (floorlog 2 (nat \<lfloor>x\<rfloor>)) - 1
      else - int (floorlog 2 (nat (\<lceil>1 / x\<rceil> - 1))))"

definition pow2 :: "int \<Rightarrow> real" where
  "pow2 e = (if 0 \<le> e then 2 ^ nat e else 1 / 2 ^ nat (- e))"

text \<open>
  Rounding to binary64: a significand of 53 bits, and no unit smaller than
  \<open>2 ^ (-1074)\<close>. The result is a finite float when \<open>float_overflows\<close> is false:
  the reals from \<open>2 ^ 1024 - 2 ^ 970\<close> on round past the largest float.
\<close>

definition fl :: "real \<Rightarrow> real" where
  "fl x =
     (if x = 0 then 0
      else let u = pow2 (max (floor_log2 \<bar>x\<bar> - 52) (- 1074))
           in of_int (round_half_even (x / u)) * u)"

definition float_overflows :: "real \<Rightarrow> bool" where
  "float_overflows x = (2 ^ 1024 - 2 ^ 970 \<le> \<bar>x\<bar>)"

text \<open>The conversion of an \<^verbatim>\<open>int\<close> operand of a float operation.\<close>

definition float_of_int :: "int \<Rightarrow> py_error + real" where
  "float_of_int n =
     (if float_overflows (of_int n) then Inl OverflowError else Inr (fl (of_int n)))"

subsection \<open>CacheEntry\<close>

datatype expiry = Finite_time real | Inf_time

record 'v CacheEntry =
  entry_value :: 'v
  entry_expiry :: expiry

text \<open>
  The sum of the clock reading and a positive float: a sum past the largest float
  is \<^verbatim>\<open>inf\<close>.
\<close>

definition float_add_time :: "real \<Rightarrow> real \<Rightarrow> expiry" where
  "float_add_time now t =
     (if float_overflows (now + t) then Inf_time else Finite_time (fl (now + t)))"

text \<open>
  \<^verbatim>\<open>time.time() + ttl if ttl > 0 else float('inf')\<close>, where \<^verbatim>\<open>ttl\<close> is an
  \<^verbatim>\<open>int\<close>: the addition converts it to a float first.
\<close>

definition CacheEntry_init :: "real \<Rightarrow> 'v \<Rightarrow> int \<Rightarrow> py_error + 'v CacheEntry" where
  "CacheEntry_init now v ttl =
     (if ttl > 0
      then (case float_of_int ttl of
              Inl err \<Rightarrow> Inl err
            | Inr t \<Rightarrow> Inr \<lparr>entry_value = v, entry_expiry = float_add_time now t\<rparr>)
      else Inr \<lparr>entry_value = v, entry_expiry = Inf_time\<rparr>)"

text \<open>The comparison \<^verbatim>\<open>now > expiry\<close> of floats, where nothing exceeds infinity.\<close>

fun time_gt :: "real \<Rightarrow> expiry \<Rightarrow> bool" where
  "time_gt now (Finite_time t) = (now > t)"
| "time_gt now Inf_time = False"

definition is_expired :: "real \<Rightarrow> 'v CacheEntry \<Rightarrow> bool" where
  "is_expired now e = time_gt now (entry_expiry e)"

subsection \<open>The operations of OrderedDict that the cache uses\<close>

type_synonym 'v odict = "(string \<times> 'v CacheEntry) list"

definition od_wf :: "'v odict \<Rightarrow> bool" where
  "od_wf d = distinct (map fst d)"

definition od_contains :: "string \<Rightarrow> 'v odict \<Rightarrow> bool" where
  "od_contains k d = (map_of d k \<noteq> None)"

text \<open>
  \<^verbatim>\<open>del d[k]\<close>. Python raises KeyError on a missing key; every call in the source
  is behind \<^verbatim>\<open>k in d\<close> or iterates over keys read from \<open>d\<close> itself, so the
  model is the removal alone.
\<close>

definition od_delitem :: "string \<Rightarrow> 'v odict \<Rightarrow> 'v odict" where
  "od_delitem k d = filter (\<lambda>p. fst p \<noteq> k) d"

text \<open>\<^verbatim>\<open>d[k] = e\<close>: a present key keeps its position, a new key goes to the end.\<close>

definition od_setitem :: "string \<Rightarrow> 'v CacheEntry \<Rightarrow> 'v odict \<Rightarrow> 'v odict" where
  "od_setitem k e d =
     (if od_contains k d then map (\<lambda>p. if fst p = k then (k, e) else p) d
      else d @ [(k, e)])"

text \<open>\<^verbatim>\<open>d.move_to_end(k)\<close>, called in the source only for a present key.\<close>

definition od_move_to_end :: "string \<Rightarrow> 'v odict \<Rightarrow> 'v odict" where
  "od_move_to_end k d =
     (case map_of d k of None \<Rightarrow> d | Some e \<Rightarrow> od_delitem k d @ [(k, e)])"

text \<open>
  \<^verbatim>\<open>d.popitem(last=False)\<close>: drops the oldest entry. The source calls it right
  after an insertion, on a dictionary that is not empty.
\<close>

definition od_popitem_first :: "'v odict \<Rightarrow> 'v odict" where
  "od_popitem_first d = tl d"

text \<open>\<^verbatim>\<open>d.pop(k, None)\<close>: removal that accepts a missing key.\<close>

definition od_pop :: "string \<Rightarrow> 'v odict \<Rightarrow> 'v odict" where
  "od_pop k d = od_delitem k d"

subsection \<open>LRUCache\<close>

record 'v LRUCache =
  max_size :: int
  default_ttl :: int
  cache :: "'v odict"
  hits :: nat
  misses :: nat
  evictions :: nat

text \<open>
  The constructor stores its arguments and starts empty. It has no check and no
  \<^verbatim>\<open>raise\<close>: the result is always \<open>Inr\<close>.
\<close>

definition LRUCache_init :: "int \<Rightarrow> int \<Rightarrow> py_error + 'v LRUCache" where
  "LRUCache_init ms dt =
     Inr \<lparr>max_size = ms, default_ttl = dt, cache = [], hits = 0, misses = 0, evictions = 0\<rparr>"

text \<open>\<open>now\<close> is the clock reading of \<^verbatim>\<open>entry.is_expired()\<close>, made for a present key.\<close>

definition LRUCache_get :: "real \<Rightarrow> string \<Rightarrow> 'v LRUCache \<Rightarrow> 'v option \<times> 'v LRUCache" where
  "LRUCache_get now key c =
     (if \<not> od_contains key (cache c) then (None, c\<lparr>misses := misses c + 1\<rparr>)
      else case map_of (cache c) key of
        None \<Rightarrow> (None, c\<lparr>misses := misses c + 1\<rparr>)
      | Some entry \<Rightarrow>
          if is_expired now entry
          then (None, c\<lparr>cache := od_delitem key (cache c), misses := misses c + 1\<rparr>)
          else (Some (entry_value entry),
                c\<lparr>cache := od_move_to_end key (cache c), hits := hits c + 1\<rparr>))"

text \<open>
  \<^verbatim>\<open>set\<close> removes the key's previous entry before it builds the new one, so an
  \<^verbatim>\<open>OverflowError\<close> of the constructor of \<^verbatim>\<open>CacheEntry\<close> leaves the cache
  without the key. \<open>now\<close> is the clock reading of that constructor.
\<close>

definition LRUCache_set ::
  "real \<Rightarrow> string \<Rightarrow> 'v \<Rightarrow> int option \<Rightarrow> 'v LRUCache \<Rightarrow> py_error option \<times> 'v LRUCache" where
  "LRUCache_set now key v ttl c =
     (let ttl' = (case ttl of None \<Rightarrow> default_ttl c | Some t \<Rightarrow> t);
          d = (if od_contains key (cache c) then od_delitem key (cache c) else cache c)
      in case CacheEntry_init now v ttl' of
           Inl err \<Rightarrow> (Some err, c\<lparr>cache := d\<rparr>)
         | Inr entry \<Rightarrow>
             (let d' = od_setitem key entry d
              in if int (length d') > max_size c
                 then (None, c\<lparr>cache := od_popitem_first d', evictions := evictions c + 1\<rparr>)
                 else (None, c\<lparr>cache := d'\<rparr>)))"

definition LRUCache_delete :: "string \<Rightarrow> 'v LRUCache \<Rightarrow> bool \<times> 'v LRUCache" where
  "LRUCache_delete key c =
     (if od_contains key (cache c) then (True, c\<lparr>cache := od_delitem key (cache c)\<rparr>)
      else (False, c))"

definition LRUCache_clear :: "'v LRUCache \<Rightarrow> 'v LRUCache" where
  "LRUCache_clear c = c\<lparr>cache := [], hits := 0, misses := 0, evictions := 0\<rparr>"

text \<open>
  \<^verbatim>\<open>round(x, 2)\<close> of a float: the decimal with two places nearest to the float's
  exact value, a tie going to the even last digit, and then the float nearest to
  that decimal.
\<close>

definition py_round2 :: "real \<Rightarrow> real" where
  "py_round2 x = fl (of_int (round_half_even (x * 100)) / 100)"

record stats =
  stats_size :: int
  stats_max_size :: int
  stats_hits :: nat
  stats_misses :: nat
  stats_evictions :: nat
  stats_hit_rate :: real

text \<open>
  \<^verbatim>\<open>self.hits / total_requests\<close> is the true division of two \<^verbatim>\<open>int\<close>s, which
  CPython rounds correctly; the product with 100 is a float product.
\<close>

definition LRUCache_get_stats :: "'v LRUCache \<Rightarrow> stats" where
  "LRUCache_get_stats c =
     (let total_requests = hits c + misses c;
          hit_rate = (if total_requests > 0
                      then fl (fl (real (hits c) / real total_requests) * 100) else 0)
      in \<lparr>stats_size = int (length (cache c)),
          stats_max_size = max_size c,
          stats_hits = hits c,
          stats_misses = misses c,
          stats_evictions = evictions c,
          stats_hit_rate = py_round2 hit_rate\<rparr>)"

text \<open>
  The comprehension of \<^verbatim>\<open>cleanup_expired\<close> calls \<^verbatim>\<open>is_expired\<close> once per
  entry, in dictionary order; \<open>clk i\<close> is the clock reading made for entry \<open>i\<close>.
\<close>

fun expired_keys :: "(nat \<Rightarrow> real) \<Rightarrow> nat \<Rightarrow> 'v odict \<Rightarrow> string list" where
  "expired_keys clk i [] = []"
| "expired_keys clk i (p # ps) =
     (if is_expired (clk i) (snd p) then fst p # expired_keys clk (Suc i) ps
      else expired_keys clk (Suc i) ps)"

definition LRUCache_cleanup_expired :: "(nat \<Rightarrow> real) \<Rightarrow> 'v LRUCache \<Rightarrow> int \<times> 'v LRUCache" where
  "LRUCache_cleanup_expired clk c =
     (let ks = expired_keys clk 0 (cache c)
      in (int (length ks), c\<lparr>cache := fold od_delitem ks (cache c)\<rparr>))"

subsection \<open>Sequences of public operations\<close>

text \<open>
  One constructor per public method of \<^verbatim>\<open>LRUCache\<close> that changes the cache,
  with the clock readings the call makes; \<open>run\<close> performs the calls in order and
  drops the values returned. A call that raises leaves its state to the next call,
  as for a caller that catches the exception.
\<close>

datatype 'v cache_op =
    Get real string
  | Set real string 'v "int option"
  | Delete string
  | Clear
  | Cleanup_expired "nat \<Rightarrow> real"

fun apply_op :: "'v cache_op \<Rightarrow> 'v LRUCache \<Rightarrow> 'v LRUCache" where
  "apply_op (Get now k) c = snd (LRUCache_get now k c)"
| "apply_op (Set now k v ttl) c = snd (LRUCache_set now k v ttl c)"
| "apply_op (Delete k) c = snd (LRUCache_delete k c)"
| "apply_op Clear c = LRUCache_clear c"
| "apply_op (Cleanup_expired clk) c = snd (LRUCache_cleanup_expired clk c)"

definition run :: "'v cache_op list \<Rightarrow> 'v LRUCache \<Rightarrow> 'v LRUCache" where
  "run ops c = fold apply_op ops c"

fun reads_only :: "'v cache_op \<Rightarrow> bool" where
  "reads_only (Get now k) = True"
| "reads_only (Cleanup_expired clk) = True"
| "reads_only _ = False"

subsection \<open>Recency of use\<close>




subsection \<open>CachedUserStore\<close>

text \<open>
  A user record is a dictionary from field names to strings. A cached value is a user
  record or the boolean of the duplicate check.
\<close>

type_synonym user_data = "(string \<times> string) list"

datatype cache_value = User user_data | Flag bool

text \<open>
  The backing store is any object with the methods the wrapper calls; \<open>'s\<close> is its
  state. The wrapper holds the store and its own cache.
\<close>

record 's CachedUserStore =
  user_store :: 's
  store_cache :: "cache_value LRUCache"

text \<open>The keys; \<open>str_lower\<close> is \<^verbatim>\<open>str.lower\<close>.\<close>

definition email_key :: "(string \<Rightarrow> string) \<Rightarrow> string \<Rightarrow> string" where
  "email_key str_lower email = ''email:'' @ str_lower email"

definition id_key :: "string \<Rightarrow> string" where
  "id_key user_id = ''id:'' @ user_id"

definition duplicate_key :: "(string \<Rightarrow> string) \<Rightarrow> string \<Rightarrow> string" where
  "duplicate_key str_lower email = ''dup:'' @ str_lower email"

definition invalidate_user_cache ::
  "(string \<Rightarrow> string) \<Rightarrow> string \<Rightarrow> string \<Rightarrow> 'v LRUCache \<Rightarrow> 'v LRUCache" where
  "invalidate_user_cache str_lower email user_id c =
     (let keys_to_invalidate =
            [email_key str_lower email, id_key user_id, duplicate_key str_lower email]
      in c\<lparr>cache := fold od_pop keys_to_invalidate (cache c)\<rparr>)"

text \<open>
  \<open>store_save\<close> is the backing store's \<^verbatim>\<open>save_user\<close>: it returns the success flag
  or the exception it raises, and the store's next state. The three \<^verbatim>\<open>set\<close>
  calls read the clock at \<open>clk 0\<close>, \<open>clk 1\<close> and \<open>clk 2\<close>. A record without
  \<^verbatim>\<open>'email'\<close> or \<^verbatim>\<open>'user_id'\<close> raises KeyError before the store is called.
  An exception of the store or of a \<^verbatim>\<open>set\<close> ends the call where it is raised.
\<close>

definition save_user ::
  "(string \<Rightarrow> string) \<Rightarrow> (user_data \<Rightarrow> 's \<Rightarrow> (py_error + bool) \<times> 's) \<Rightarrow> (nat \<Rightarrow> real)
     \<Rightarrow> user_data \<Rightarrow> 's CachedUserStore \<Rightarrow> (py_error + bool) \<times> 's CachedUserStore" where
  "save_user str_lower store_save clk user_data s =
     (case map_of user_data ''email'' of
        None \<Rightarrow> (Inl (KeyError ''email''), s)
      | Some e \<Rightarrow>
         (case map_of user_data ''user_id'' of
            None \<Rightarrow> (Inl (KeyError ''user_id''), s)
          | Some user_id \<Rightarrow>
             (let email = str_lower e;
                  (r, st) = store_save user_data (user_store s)
              in case r of
                   Inl err \<Rightarrow> (Inl err, \<lparr>user_store = st, store_cache = store_cache s\<rparr>)
                 | Inr success \<Rightarrow>
                     if success
                     then
                       (let c0 = invalidate_user_cache str_lower email user_id (store_cache s);
                            (r1, c1) = LRUCache_set (clk 0) (email_key str_lower email)
                                         (User user_data) None c0
                        in case r1 of
                             Some err \<Rightarrow> (Inl err, \<lparr>user_store = st, store_cache = c1\<rparr>)
                           | None \<Rightarrow>
                               (let (r2, c2) = LRUCache_set (clk 1) (id_key user_id)
                                                 (User user_data) None c1
                                in case r2 of
                                     Some err \<Rightarrow> (Inl err, \<lparr>user_store = st, store_cache = c2\<rparr>)
                                   | None \<Rightarrow>
                                       (let (r3, c3) = LRUCache_set (clk 2)
                                                         (duplicate_key str_lower email)
                                                         (Flag True) None c2
                                        in case r3 of
                                             Some err \<Rightarrow>
                                               (Inl err, \<lparr>user_store = st, store_cache = c3\<rparr>)
                                           | None \<Rightarrow>
                                               (Inr success,
                                                \<lparr>user_store = st, store_cache = c3\<rparr>))))
                     else (Inr success, \<lparr>user_store = st, store_cache = store_cache s\<rparr>))))"

text \<open>\<^verbatim>\<open>s.startswith(p)\<close> and \<^verbatim>\<open>s.endswith(p)\<close>.\<close>

definition startswith :: "string \<Rightarrow> string \<Rightarrow> bool" where
  "startswith s p = prefix p s"

definition endswith :: "string \<Rightarrow> string \<Rightarrow> bool" where
  "endswith s p = suffix p s"

text \<open>
  \<^verbatim>\<open>s.split(sep, 1)\<close> for a separator of one character: the text before the
  first separator and the text after it, or the whole string when there is none.
\<close>

definition split_once :: "char \<Rightarrow> string \<Rightarrow> string list" where
  "split_once sep s =
     (if sep \<in> set s then [takeWhile (\<lambda>ch. ch \<noteq> sep) s, tl (dropWhile (\<lambda>ch. ch \<noteq> sep) s)]
      else [s])"

definition matches_pattern :: "string \<Rightarrow> string \<Rightarrow> bool" where
  "matches_pattern key pattern =
     (if CHR ''*'' \<notin> set pattern then key = pattern
      else if endswith pattern ''*'' then startswith key (butlast pattern)
      else if startswith pattern ''*'' then endswith key (tl pattern)
      else (let parts = split_once CHR ''*'' pattern
            in startswith key (parts ! 0) \<and> endswith key (parts ! 1)))"

definition invalidate_pattern :: "string \<Rightarrow> 's CachedUserStore \<Rightarrow> 's CachedUserStore" where
  "invalidate_pattern pattern s =
     (let c = store_cache s;
          keys_to_delete = filter (\<lambda>key. matches_pattern key pattern) (map fst (cache c))
      in s\<lparr>store_cache := c\<lparr>cache := fold od_delitem keys_to_delete (cache c)\<rparr>\<rparr>)"

section \<open>Properties\<close>

subsection \<open>The dictionary operations\<close>

lemma fold_delitem: "fold od_delitem ks d = filter (\<lambda>p. fst p \<notin> set ks) d"
  by (induction ks arbitrary: d) (auto simp: od_delitem_def intro: filter_cong)

lemma map_of_filter_fst:
  "map_of (filter (\<lambda>p. P (fst p)) d) k = (if P k then map_of d k else None)"
  by (induction d) auto

lemma od_contains_iff: "od_contains k d = (k \<in> fst ` set d)"
  by (simp add: od_contains_def map_of_eq_None_iff)



lemma delitem_absent: "\<not> od_contains k d \<Longrightarrow> od_delitem k d = d"
  unfolding od_contains_iff od_delitem_def by (induction d) auto

lemma not_contains_delitem: "\<not> od_contains k (od_delitem k d)"
  by (auto simp: od_contains_iff od_delitem_def)

lemma map_of_delitem: "map_of (od_delitem k d) k' = (if k' = k then None else map_of d k')"
  unfolding od_delitem_def by (induction d) auto

lemma wf_delitem: "od_wf d \<Longrightarrow> od_wf (od_delitem k d)"
  by (simp add: od_wf_def od_delitem_def distinct_map_filter)

lemma wf_fold_delitem: "od_wf d \<Longrightarrow> od_wf (fold od_delitem ks d)"
  by (simp add: od_wf_def fold_delitem distinct_map_filter)

lemma wf_snoc: "od_wf d \<Longrightarrow> \<not> od_contains k d \<Longrightarrow> od_wf (d @ [(k, e)])"
  by (auto simp: od_wf_def od_contains_iff)

lemma wf_tl: "od_wf d \<Longrightarrow> od_wf (tl d)"
  by (cases d) (auto simp: od_wf_def)

lemma wf_length_delitem:
  "od_wf d \<Longrightarrow> map_of d k = Some e \<Longrightarrow> Suc (length (od_delitem k d)) = length d"
  unfolding od_wf_def od_delitem_def
proof (induction d)
  case Nil
  then show ?case by simp
next
  case (Cons p d)
  show ?case
  proof (cases "fst p = k")
    case True
    with Cons.prems have "k \<notin> fst ` set d" by auto
    then have "filter (\<lambda>q. fst q \<noteq> k) d = d" by (induction d) auto
    with True show ?thesis by simp
  next
    case False
    with Cons show ?thesis by auto
  qed
qed

subsection \<open>The cache operations\<close>

lemma set_raises:
  assumes "CacheEntry_init now v (case ttl of None \<Rightarrow> default_ttl c | Some t \<Rightarrow> t) = Inl err"
  shows "LRUCache_set now k v ttl c = (Some err, c\<lparr>cache := od_delitem k (cache c)\<rparr>)"
  using assms by (simp add: LRUCache_set_def Let_def delitem_absent)

lemma set_stores:
  assumes "CacheEntry_init now v (case ttl of None \<Rightarrow> default_ttl c | Some t \<Rightarrow> t) = Inr e"
  shows "LRUCache_set now k v ttl c =
    (if int (length (od_delitem k (cache c) @ [(k, e)])) > max_size c
     then (None, c\<lparr>cache := tl (od_delitem k (cache c) @ [(k, e)]),
                   evictions := evictions c + 1\<rparr>)
     else (None, c\<lparr>cache := od_delitem k (cache c) @ [(k, e)]\<rparr>))"
  using assms
  by (simp add: LRUCache_set_def Let_def od_setitem_def od_popitem_first_def
      not_contains_delitem delitem_absent)

lemma set_cache_cases:
  "cache (snd (LRUCache_set now k v ttl c)) = od_delitem k (cache c) \<or>
   (\<exists>e. cache (snd (LRUCache_set now k v ttl c)) = od_delitem k (cache c) @ [(k, e)]
        \<and> \<not> int (length (od_delitem k (cache c) @ [(k, e)])) > max_size c) \<or>
   (\<exists>e. cache (snd (LRUCache_set now k v ttl c)) = tl (od_delitem k (cache c) @ [(k, e)])
        \<and> int (length (od_delitem k (cache c) @ [(k, e)])) > max_size c)"
proof (cases "CacheEntry_init now v (case ttl of None \<Rightarrow> default_ttl c | Some t \<Rightarrow> t)")
  case (Inl err)
  from set_raises [OF this, of k] show ?thesis by simp
next
  case (Inr e)
  show ?thesis
  proof (cases "int (length (od_delitem k (cache c) @ [(k, e)])) > max_size c")
    case True
    with set_stores [OF Inr, of k] have
      "cache (snd (LRUCache_set now k v ttl c)) = tl (od_delitem k (cache c) @ [(k, e)])"
      by simp
    with True show ?thesis by blast
  next
    case False
    with set_stores [OF Inr, of k] have
      "cache (snd (LRUCache_set now k v ttl c)) = od_delitem k (cache c) @ [(k, e)]"
      by simp
    with False show ?thesis by blast
  qed
qed

lemma max_size_set [simp]: "max_size (snd (LRUCache_set now k v ttl c)) = max_size c"
  by (simp add: LRUCache_set_def Let_def split: sum.splits)


lemma wf_set: "od_wf (cache c) \<Longrightarrow> od_wf (cache (snd (LRUCache_set now k v ttl c)))"
  using set_cache_cases [of now k v ttl c]
  by (auto simp: wf_tl wf_snoc wf_delitem not_contains_delitem)


lemma wf_move_to_end: "od_wf d \<Longrightarrow> od_wf (od_move_to_end k d)"
  by (simp add: od_move_to_end_def wf_snoc wf_delitem not_contains_delitem split: option.splits)

lemma get_cache_cases:
  "cache (snd (LRUCache_get now k c)) = cache c \<or>
   cache (snd (LRUCache_get now k c)) = od_delitem k (cache c) \<or>
   cache (snd (LRUCache_get now k c)) = od_move_to_end k (cache c)"
  by (simp add: LRUCache_get_def split: option.splits)

lemma max_size_get [simp]: "max_size (snd (LRUCache_get now k c)) = max_size c"
  by (simp add: LRUCache_get_def split: option.splits)


lemma wf_get: "od_wf (cache c) \<Longrightarrow> od_wf (cache (snd (LRUCache_get now k c)))"
  using get_cache_cases [of now k c] by (auto simp: wf_delitem wf_move_to_end)

lemma apply_op_max_size [simp]: "max_size (apply_op op c) = max_size c"
  by (cases op) (simp_all add: LRUCache_delete_def LRUCache_clear_def
      LRUCache_cleanup_expired_def Let_def)


lemma wf_Nil: "od_wf []"
  by (simp add: od_wf_def)

lemma apply_op_wf: "od_wf (cache c) \<Longrightarrow> od_wf (cache (apply_op op c))"
  by (cases op) (simp_all add: wf_get wf_set wf_delitem wf_fold_delitem wf_Nil
      LRUCache_delete_def LRUCache_clear_def LRUCache_cleanup_expired_def Let_def)


lemma run_Cons: "run (op # ops) c = run ops (apply_op op c)"
  by (simp add: run_def)

lemma run_max_size [simp]: "max_size (run ops c) = max_size c"
  unfolding run_def by (induction ops arbitrary: c) simp_all


lemma run_wf: "od_wf (cache c) \<Longrightarrow> od_wf (cache (run ops c))"
  unfolding run_def by (induction ops arbitrary: c) (simp_all add: apply_op_wf)

subsection \<open>The order of the dictionary and the recency of use\<close>
















lemma init_cache: "LRUCache_init m d = Inr c0 \<Longrightarrow> cache c0 = [] \<and> max_size c0 = m"
  by (auto simp: LRUCache_init_def)

lemma apply_op_empty:
  assumes "max_size c \<le> 0" and "cache c = []"
  shows "cache (apply_op op c) = []"
proof (cases op)
  case (Get now k)
  with assms show ?thesis by (simp add: LRUCache_get_def od_contains_def)
next
  case (Set now k v ttl)
  from set_cache_cases [of now k v ttl c] assms show ?thesis
    unfolding Set by (auto simp: od_delitem_def)
next
  case (Delete k)
  with assms show ?thesis by (simp add: LRUCache_delete_def od_contains_def)
next
  case Clear
  then show ?thesis by (simp add: LRUCache_clear_def)
next
  case (Cleanup_expired clk)
  with assms show ?thesis by (simp add: LRUCache_cleanup_expired_def)
qed

lemma run_empty:
  "max_size c \<le> 0 \<Longrightarrow> cache c = [] \<Longrightarrow> cache (run ops c) = []"
proof (induction ops arbitrary: c)
  case Nil
  then show ?case by (simp add: run_def)
next
  case (Cons op ops)
  from Cons.prems have "max_size (apply_op op c) \<le> 0" and "cache (apply_op op c) = []"
    by (simp_all add: apply_op_empty)
  from Cons.IH [OF this] show ?case by (simp add: run_Cons)
qed

lemma get_hit:
  assumes "map_of (cache c) k = Some e" and "\<not> is_expired now e"
  shows "LRUCache_get now k c =
    (Some (entry_value e), c\<lparr>cache := od_delitem k (cache c) @ [(k, e)], hits := hits c + 1\<rparr>)"
  using assms by (simp add: LRUCache_get_def od_contains_def od_move_to_end_def)

lemma set_never_expires:
  assumes "t \<le> 0"
  shows "LRUCache_set now k v (Some t) c =
    (if int (length (od_delitem k (cache c) @ [(k, \<lparr>entry_value = v, entry_expiry = Inf_time\<rparr>)]))
          > max_size c
     then (None, c\<lparr>cache := tl (od_delitem k (cache c)
                        @ [(k, \<lparr>entry_value = v, entry_expiry = Inf_time\<rparr>)]),
                   evictions := evictions c + 1\<rparr>)
     else (None, c\<lparr>cache := od_delitem k (cache c)
                        @ [(k, \<lparr>entry_value = v, entry_expiry = Inf_time\<rparr>)]\<rparr>))"
proof -
  from assms have "CacheEntry_init now v (case Some t of None \<Rightarrow> default_ttl c | Some t \<Rightarrow> t)
      = Inr \<lparr>entry_value = v, entry_expiry = Inf_time\<rparr>"
    by (simp add: CacheEntry_init_def)
  from set_stores [OF this] show ?thesis .
qed

subsection \<open>Rounding to floats\<close>

lemma round_half_even_near: "\<bar>of_int (round_half_even y) - y\<bar> \<le> 1 / 2"
proof -
  have f: "of_int \<lfloor>y\<rfloor> \<le> y" "y < of_int \<lfloor>y\<rfloor> + 1" by linarith+
  show ?thesis
    unfolding round_half_even_def Let_def using f by (auto split: if_splits)
qed

lemma round_half_even_int: "round_half_even (of_int n) = n"
  by (simp add: round_half_even_def)

lemma pow2_pos: "0 < pow2 e"
  by (simp add: pow2_def)

lemma pow2_powr: "pow2 e = 2 powr (of_int e)"
proof (cases "0 \<le> e")
  case True
  then show ?thesis
    by (simp add: pow2_def powr_realpow [symmetric])
next
  case False
  then have "(2::real) powr (of_int e) = 1 / 2 powr (of_int (- e))"
    by (simp add: powr_minus divide_inverse)
  also have "\<dots> = 1 / 2 ^ nat (- e)"
    using False by (simp add: powr_realpow [symmetric])
  finally show ?thesis using False by (simp add: pow2_def)
qed

lemma pow2_mono: "a \<le> b \<Longrightarrow> pow2 a \<le> pow2 b"
  by (simp add: pow2_powr)

lemma pow2_add: "pow2 (a + b) = pow2 a * pow2 b"
  by (simp add: pow2_powr powr_add)

lemma pow2_max: "pow2 (max a b) = max (pow2 a) (pow2 b)"
  by (simp add: max_def pow2_powr)

lemma floor_log2_le:
  assumes "0 < x"
  shows "pow2 (floor_log2 x) \<le> x"
proof (cases "1 \<le> x")
  case True
  define n where "n = nat \<lfloor>x\<rfloor>"
  from True have n: "0 < n" "real n \<le> x" by (simp_all add: n_def)
  from floorlog_bounds [of n 2] n have b: "2 ^ (floorlog 2 n - 1) \<le> n" by simp
  from n have "0 < floorlog 2 n" by (simp add: floorlog_def)
  then have "floor_log2 x = int (floorlog 2 n - 1)"
    using True by (simp add: floor_log2_def n_def)
  then have "pow2 (floor_log2 x) = 2 ^ (floorlog 2 n - 1)" by (simp add: pow2_def)
  also have "\<dots> \<le> real n" using b by (metis of_nat_le_iff of_nat_numeral of_nat_power)
  finally show ?thesis using n by simp
next
  case False
  define y where "y = 1 / x"
  define n where "n = nat (\<lceil>y\<rceil> - 1)"
  from False assms have y: "1 < y" by (simp add: y_def)
  then have "2 \<le> \<lceil>y\<rceil>" by linarith
  then have n: "0 < n" by (simp add: n_def)
  have "y \<le> of_int \<lceil>y\<rceil>" by linarith
  with \<open>2 \<le> \<lceil>y\<rceil>\<close> have yn: "y \<le> real n + 1" by (simp add: n_def)
  from floorlog_bounds [of n 2] n have "n < 2 ^ floorlog 2 n" by simp
  then have "n + 1 \<le> 2 ^ floorlog 2 n" by simp
  then have "real (n + 1) \<le> real (2 ^ floorlog 2 n)" by (rule of_nat_mono)
  then have "real n + 1 \<le> 2 ^ floorlog 2 n" by simp
  with yn have "y \<le> 2 ^ floorlog 2 n" by simp
  then have "1 / 2 ^ floorlog 2 n \<le> x"
    using assms by (simp add: y_def field_simps)
  moreover have "floor_log2 x = - int (floorlog 2 n)"
    using False by (simp add: floor_log2_def n_def y_def)
  moreover from n have "0 < floorlog 2 n" by (simp add: floorlog_def)
  ultimately show ?thesis
    by (simp add: pow2_def)
qed

lemma fl_error:
  "\<bar>fl x - x\<bar> \<le> max (\<bar>x\<bar> / 2 ^ 53) (pow2 (- 1075))"
proof (cases "x = 0")
  case True
  then show ?thesis by (simp add: fl_def pow2_def)
next
  case False
  define u where "u = pow2 (max (floor_log2 \<bar>x\<bar> - 52) (- 1074))"
  have u: "0 < u" by (simp add: u_def pow2_pos)
  have f: "fl x = of_int (round_half_even (x / u)) * u"
    using False by (simp add: fl_def u_def Let_def)
  have "fl x - x = (of_int (round_half_even (x / u)) - x / u) * u"
    using u by (simp add: f algebra_simps)
  then have "\<bar>fl x - x\<bar> = \<bar>of_int (round_half_even (x / u)) - x / u\<bar> * u"
    using u by (simp add: abs_mult)
  also have "\<dots> \<le> (1 / 2) * u"
    using round_half_even_near [of "x / u"] u by (intro mult_right_mono) simp_all
  finally have e: "\<bar>fl x - x\<bar> \<le> u / 2" by simp
  have "pow2 (floor_log2 \<bar>x\<bar> - 52) = pow2 (floor_log2 \<bar>x\<bar>) * pow2 (- 52)"
    using pow2_add [of "floor_log2 \<bar>x\<bar>" "- 52"] by simp
  also have "\<dots> \<le> \<bar>x\<bar> * pow2 (- 52)"
    using floor_log2_le [of "\<bar>x\<bar>"] False pow2_pos [of "- 52"]
    by (intro mult_right_mono) simp_all
  finally have a: "pow2 (floor_log2 \<bar>x\<bar> - 52) / 2 \<le> \<bar>x\<bar> / 2 ^ 53"
    by (simp add: pow2_def)
  have b: "pow2 (- 1074) / 2 = pow2 (- 1075)"
    using pow2_add [of "- 1075" 1] by (simp add: pow2_def)
  define A where "A = pow2 (floor_log2 \<bar>x\<bar> - 52)"
  define B where "B = pow2 (- 1074)"
  have um: "u = max A B" by (simp only: u_def pow2_max A_def B_def)
  have "u / 2 = max (A / 2) (B / 2)" by (simp add: um max_def)
  also have "\<dots> \<le> max (\<bar>x\<bar> / 2 ^ 53) (pow2 (- 1075))"
    using a b unfolding A_def [symmetric] B_def [symmetric] by (simp add: max_def)
  finally show ?thesis using e by simp
qed

lemma fl_of_int:
  assumes "\<bar>n\<bar> < 2 ^ 53"
  shows "fl (of_int n) = of_int n"
proof (cases "n = 0")
  case True
  then show ?thesis by (simp add: fl_def)
next
  case False
  define m where "m = nat \<bar>n\<bar>"
  from False assms have m: "0 < m" "m < 2 ^ 53" by (simp_all add: m_def nat_less_iff)
  have ab: "\<bar>real_of_int n\<bar> = of_int \<bar>n\<bar>" by simp
  from False have "1 \<le> \<bar>n\<bar>" by simp
  then have "(1::real) \<le> of_int \<bar>n\<bar>" by (simp only: of_int_1_le_iff)
  then have one: "1 \<le> \<bar>real_of_int n\<bar>" by (simp only: ab)
  have "floor_log2 \<bar>real_of_int n\<bar> = int (floorlog 2 (nat \<lfloor>\<bar>real_of_int n\<bar>\<rfloor>)) - 1"
    using one by (simp only: floor_log2_def if_True)
  also have "nat \<lfloor>\<bar>real_of_int n\<bar>\<rfloor> = m" by (simp only: ab floor_of_int m_def)
  finally have e: "floor_log2 \<bar>real_of_int n\<bar> = int (floorlog 2 m) - 1" .
  from m have l1: "0 < floorlog 2 m" by (simp add: floorlog_def)
  from m have l2: "floorlog 2 m \<le> 53" by (intro floorlog_leI) simp_all
  define j where "j = 53 - floorlog 2 m"
  from l1 l2 have ee: "floor_log2 \<bar>real_of_int n\<bar> - 52 = - int j"
    by (simp add: e j_def)
  from l1 have "j \<le> 52" by (simp add: j_def)
  then have mx: "max (- int j) (- 1074) = - int j" by simp
  have u: "pow2 (- int j) = 1 / 2 ^ j" by (simp add: pow2_def)
  have q: "real_of_int n / (1 / 2 ^ j) = of_int (n * 2 ^ j)" by simp
  have "fl (of_int n) = of_int (round_half_even (real_of_int n / (1 / 2 ^ j))) * (1 / 2 ^ j)"
    using False by (simp add: fl_def ee mx u Let_def)
  also have "\<dots> = of_int (n * 2 ^ j) * (1 / 2 ^ j)"
    by (simp only: q round_half_even_int)
  also have "\<dots> = of_int n" by simp
  finally show ?thesis .
qed

subsection \<open>Entries that stay\<close>

lemma map_of_snoc_absent:
  assumes "k \<notin> fst ` set xs"
  shows "map_of (xs @ [(k, e)]) k = Some e"
proof -
  from assms have "map_of xs k = None" by (simp add: map_of_eq_None_iff)
  then show ?thesis by (simp add: map_add_def)
qed

lemma set_tl_subset: "set (tl zs) \<subseteq> set zs"
  by (cases zs) auto

lemma map_of_snoc_other: "k' \<noteq> k \<Longrightarrow> map_of (xs @ [(k', e)]) k = map_of xs k"
  by (simp add: map_add_def split: option.splits)

lemma map_of_move_to_end: "map_of (od_move_to_end k' d) k = map_of d k"
proof (cases "map_of d k'")
  case None
  then show ?thesis by (simp add: od_move_to_end_def)
next
  case (Some e')
  have a: "k' \<notin> fst ` set (od_delitem k' d)" by (auto simp: od_delitem_def)
  show ?thesis
  proof (cases "k = k'")
    case True
    have "map_of (od_delitem k' d @ [(k', e')]) k' = Some e'"
      using a by (rule map_of_snoc_absent)
    with Some True show ?thesis by (simp only: od_move_to_end_def option.case)
  next
    case False
    then have "k' \<noteq> k" by simp
    then have "map_of (od_delitem k' d @ [(k', e')]) k = map_of (od_delitem k' d) k"
      by (rule map_of_snoc_other)
    also have "\<dots> = map_of d k" using False by (simp add: map_of_delitem)
    finally show ?thesis using Some by (simp only: od_move_to_end_def option.case)
  qed
qed

lemma get_keeps_entry:
  assumes "map_of (cache c) k = Some e" and "entry_expiry e = Inf_time"
  shows "map_of (cache (snd (LRUCache_get now k' c))) k = Some e"
proof (cases "map_of (cache c) k'")
  case None
  then show ?thesis using assms by (simp add: LRUCache_get_def od_contains_def)
next
  case (Some e')
  show ?thesis
  proof (cases "is_expired now e'")
    case True
    with Some assms have "k' \<noteq> k" by (auto simp: is_expired_def)
    with Some True assms show ?thesis
      by (simp add: LRUCache_get_def od_contains_def map_of_delitem)
  next
    case False
    with Some assms show ?thesis
      by (simp add: LRUCache_get_def od_contains_def map_of_move_to_end)
  qed
qed

lemma expired_keys_sound:
  "x \<in> set (expired_keys clk i d) \<Longrightarrow> \<exists>e j. (x, e) \<in> set d \<and> is_expired (clk j) e"
proof (induction d arbitrary: i)
  case Nil
  then show ?case by simp
next
  case (Cons p d)
  show ?case
  proof (cases "is_expired (clk i) (snd p) \<and> x = fst p")
    case True
    then have "(x, snd p) \<in> set (p # d) \<and> is_expired (clk i) (snd p)" by simp
    then show ?thesis by blast
  next
    case False
    with Cons.prems have "x \<in> set (expired_keys clk (Suc i) d)" by (auto split: if_splits)
    from Cons.IH [OF this] show ?thesis by auto
  qed
qed

lemma cleanup_keeps_entry:
  assumes wf: "od_wf (cache c)" and m: "map_of (cache c) k = Some e"
    and inf: "entry_expiry e = Inf_time"
  shows "map_of (cache (snd (LRUCache_cleanup_expired clk c))) k = Some e"
proof -
  have "k \<notin> set (expired_keys clk 0 (cache c))"
  proof
    assume "k \<in> set (expired_keys clk 0 (cache c))"
    from expired_keys_sound [OF this] obtain e' j
      where in_d: "(k, e') \<in> set (cache c)" and ex: "is_expired (clk j) e'" by blast
    from wf in_d have "map_of (cache c) k = Some e'"
      unfolding od_wf_def by (rule map_of_is_SomeI)
    with m have "e' = e" by simp
    with ex inf show False by (simp add: is_expired_def)
  qed
  then show ?thesis
    using m map_of_filter_fst [of "\<lambda>y. y \<notin> set (expired_keys clk 0 (cache c))" "cache c" k]
    by (simp add: LRUCache_cleanup_expired_def Let_def fold_delitem)
qed

lemma reads_keep_entry:
  assumes "od_wf (cache c)" and "map_of (cache c) k = Some e"
    and "entry_expiry e = Inf_time" and "\<forall>op \<in> set ops. reads_only op"
  shows "map_of (cache (run ops c)) k = Some e"
  using assms
proof (induction ops arbitrary: c)
  case Nil
  then show ?case by (simp add: run_def)
next
  case (Cons op ops)
  from Cons.prems have r: "reads_only op" by simp
  have wf': "od_wf (cache (apply_op op c))" using Cons.prems(1) by (rule apply_op_wf)
  have m': "map_of (cache (apply_op op c)) k = Some e"
  proof (cases op)
    case (Get now k')
    with get_keeps_entry [OF Cons.prems(2,3)] show ?thesis by simp
  next
    case (Cleanup_expired clk)
    with cleanup_keeps_entry [OF Cons.prems(1,2,3)] show ?thesis by simp
  next
    case (Set now k' v ttl)
    with r show ?thesis by simp
  next
    case (Delete k')
    with r show ?thesis by simp
  next
    case Clear
    with r show ?thesis by simp
  qed
  from Cons.prems have "\<forall>op \<in> set ops. reads_only op" by simp
  from Cons.IH [OF wf' m' Cons.prems(3) this] show ?case by (simp add: run_Cons)
qed

lemma set_keeps_suffix:
  assumes e: "CacheEntry_init now v (case ttl of None \<Rightarrow> default_ttl c | Some t \<Rightarrow> t) = Inr e"
    and c: "cache c = xs @ ys" and k: "k \<notin> fst ` set ys"
    and len: "int (length ys) < max_size c"
  shows "\<exists>xs'. cache (snd (LRUCache_set now k v ttl c)) = xs' @ ys @ [(k, e)]
    \<and> set xs' \<subseteq> set xs \<and> k \<notin> fst ` set xs'"
proof -
  from k have "filter (\<lambda>p. fst p \<noteq> k) ys = ys" by (induction ys) auto
  then have d: "od_delitem k (cache c) = od_delitem k xs @ ys"
    by (simp add: od_delitem_def c)
  have nk: "k \<notin> fst ` set (od_delitem k xs)" by (auto simp: od_delitem_def)
  have sub: "set (od_delitem k xs) \<subseteq> set xs" by (auto simp: od_delitem_def)
  show ?thesis
  proof (cases "int (length (od_delitem k (cache c) @ [(k, e)])) > max_size c")
    case True
    with len have ne: "od_delitem k xs \<noteq> []" by (auto simp: d)
    from True have "cache (snd (LRUCache_set now k v ttl c)) =
        tl (od_delitem k xs) @ ys @ [(k, e)]"
      using ne by (simp add: set_stores [OF e] d)
    moreover have "set (tl (od_delitem k xs)) \<subseteq> set xs"
      using sub set_tl_subset [of "od_delitem k xs"] by blast
    moreover have "k \<notin> fst ` set (tl (od_delitem k xs))"
      using nk set_tl_subset [of "od_delitem k xs"] by blast
    ultimately show ?thesis by blast
  next
    case False
    then have "cache (snd (LRUCache_set now k v ttl c)) = od_delitem k xs @ ys @ [(k, e)]"
      by (simp add: set_stores [OF e] d)
    with sub nk show ?thesis by blast
  qed
qed

lemma set_stores_entry:
  assumes e: "CacheEntry_init now v (case ttl of None \<Rightarrow> default_ttl c | Some t \<Rightarrow> t) = Inr e"
    and m: "1 \<le> max_size c"
  shows "map_of (cache (snd (LRUCache_set now k v ttl c))) k = Some e"
proof -
  from m have "int (length ([] :: 'a odict)) < max_size c" by simp
  from set_keeps_suffix [OF e _ _ this, of "cache c" k] obtain xs'
    where c': "cache (snd (LRUCache_set now k v ttl c)) = xs' @ [(k, e)]"
      and nk: "k \<notin> fst ` set xs'"
    by auto
  from nk have "map_of (xs' @ [(k, e)]) k = Some e" by (rule map_of_snoc_absent)
  then show ?thesis by (simp only: c')
qed

subsection \<open>The hit rate\<close>

lemma fl_error_small:
  assumes "\<bar>x\<bar> \<le> b" and "1 \<le> b"
  shows "\<bar>fl x - x\<bar> \<le> b / 2 ^ 53"
proof -
  have p: "pow2 (- 1075) \<le> 1 / 2 ^ 53" by (simp add: pow2_def)
  from assms have "\<bar>x\<bar> / 2 ^ 53 \<le> b / 2 ^ 53" by (simp add: divide_right_mono)
  moreover from assms have "1 / 2 ^ 53 \<le> b / 2 ^ 53" by (simp add: divide_right_mono)
  ultimately have "max (\<bar>x\<bar> / 2 ^ 53) (pow2 (- 1075)) \<le> b / 2 ^ 53"
    using p by simp
  with fl_error [of x] show ?thesis by linarith
qed

lemma fl_half: "fl (1 / 2) = 1 / 2"
  by code_simp

lemma fl_50: "fl 50 = 50"
  using fl_of_int [of 50] by simp

lemma fl_0: "fl 0 = 0"
  by (simp add: fl_def)

lemma py_round2_0: "py_round2 0 = 0"
  by (simp add: py_round2_def round_half_even_def fl_0)

lemma py_round2_50: "py_round2 50 = 50"
proof -
  have "round_half_even (50 * 100) = 5000"
    using round_half_even_int [of 5000] by simp
  then show ?thesis by (simp add: py_round2_def fl_50)
qed

lemma hit_rate_near:
  fixes h t :: nat
  assumes t: "0 < t" and h: "h \<le> t"
  shows "\<bar>py_round2 (fl (fl (real h / real t) * 100)) - real h / real t * 100\<bar>
         \<le> 1 / 200 + 1 / 10 ^ 13"
proof -
  define a where "a = real h / real t"
  define q where "q = fl a"
  define x where "x = fl (q * 100)"
  define y where "y = real_of_int (round_half_even (x * 100)) / 100"
  define r where "r = fl y"
  define d :: real where "d = 1 / 2 ^ 53"
  have d: "0 < d" "d \<le> 1 / 1000" by (simp_all add: d_def)
  have d304: "304 * d \<le> 1 / 10 ^ 13" by (simp add: d_def)
  from t h have a: "0 \<le> a" "a \<le> 1" by (simp_all add: a_def)
  then have "\<bar>a\<bar> \<le> 1" by simp
  from fl_error_small [OF this] have e1: "\<bar>q - a\<bar> \<le> d" by (simp add: q_def d_def)
  with a d have "\<bar>q * 100\<bar> \<le> 101" by (simp add: abs_le_iff; linarith)
  from fl_error_small [OF this] have e2: "\<bar>x - q * 100\<bar> \<le> 101 * d"
    by (simp add: x_def d_def)
  from e1 e2 a d have xb: "\<bar>x\<bar> \<le> 102" by (simp add: abs_le_iff; linarith)
  have "\<bar>real_of_int (round_half_even (x * 100)) - x * 100\<bar> \<le> 1 / 2"
    by (rule round_half_even_near)
  then have e3: "\<bar>y - x\<bar> \<le> 1 / 200" by (simp add: y_def abs_le_iff field_simps)
  with xb have "\<bar>y\<bar> \<le> 103" by (simp add: abs_le_iff; linarith)
  from fl_error_small [OF this] have e4: "\<bar>r - y\<bar> \<le> 103 * d" by (simp add: r_def d_def)
  from e1 e2 e3 e4 have "\<bar>r - a * 100\<bar> \<le> 1 / 200 + 304 * d"
    by (simp add: abs_le_iff; linarith)
  with d304 have "\<bar>r - a * 100\<bar> \<le> 1 / 200 + 1 / 10 ^ 13" by linarith
  then show ?thesis
    by (simp only: r_def y_def x_def q_def a_def py_round2_def)
qed

subsection \<open>Pattern matching\<close>

lemma suffix_single: "suffix [c] xs = (xs \<noteq> [] \<and> last xs = c)"
  by (cases xs rule: rev_cases) (auto simp: suffix_def)

lemma prefix_single: "prefix [c] xs = (xs \<noteq> [] \<and> hd xs = c)"
  by (cases xs) auto

lemma matches_no_star:
  "CHR ''*'' \<notin> set p \<Longrightarrow> matches_pattern k p = (k = p)"
  by (simp add: matches_pattern_def)

lemma matches_trailing_star: "matches_pattern k (x @ ''*'') = prefix x k"
  by (simp add: matches_pattern_def endswith_def startswith_def suffix_single)

lemma split_once_star:
  assumes "CHR ''*'' \<notin> set a"
  shows "split_once CHR ''*'' (a @ CHR ''*'' # b) = [a, b]"
proof -
  have "\<And>x. x \<in> set a \<Longrightarrow> x \<noteq> CHR ''*''" using assms by auto
  then have "takeWhile (\<lambda>ch. ch \<noteq> CHR ''*'') (a @ CHR ''*'' # b) = a"
    and "dropWhile (\<lambda>ch. ch \<noteq> CHR ''*'') (a @ CHR ''*'' # b) = CHR ''*'' # b"
    by (simp_all add: takeWhile_append2 dropWhile_append2)
  then show ?thesis by (simp add: split_once_def)
qed

lemma matches_middle_star:
  assumes a: "CHR ''*'' \<notin> set a" and b: "CHR ''*'' \<notin> set b"
  shows "matches_pattern k (a @ ''*'' @ b) = (prefix a k \<and> suffix b k)"
proof (cases "b = []")
  case True
  then show ?thesis using matches_trailing_star [of k a] by simp
next
  case bne: False
  then have "last b \<in> set b" by simp
  with b have lb: "last b \<noteq> CHR ''*''" by auto
  with bne have ne: "\<not> suffix ''*'' (a @ CHR ''*'' # b)"
    by (simp add: suffix_single)
  show ?thesis
  proof (cases "a = []")
    case True
    then show ?thesis using ne
      by (simp add: matches_pattern_def endswith_def startswith_def)
  next
    case ane: False
    then have "hd a \<in> set a" by simp
    with a have "hd a \<noteq> CHR ''*''" by auto
    with ane have np: "\<not> prefix ''*'' (a @ CHR ''*'' # b)"
      by (simp add: prefix_single)
    show ?thesis using ne np split_once_star [OF a, of b]
      by (simp add: matches_pattern_def endswith_def startswith_def)
  qed
qed

lemma invalidate_pattern_cache:
  "cache (store_cache (invalidate_pattern p s)) =
     filter (\<lambda>q. \<not> matches_pattern (fst q) p) (cache (store_cache s))"
  by (auto simp: invalidate_pattern_def Let_def fold_delitem intro!: filter_cong)

section \<open>The claims\<close>

subsection \<open>Pattern invalidation\<close>

text \<open>
  Claim C10. The bare pattern \<^verbatim>\<open>"*"\<close> matches every key, because the branch for a
  trailing wildcard tests \<^verbatim>\<open>key.startswith("")\<close>; so \<^verbatim>\<open>invalidate_pattern("*")\<close>
  leaves the cache empty, whatever it held.
\<close>

theorem invalidate_pattern_star_clears:
  "cache (store_cache (invalidate_pattern ''*'' s)) = []
   \<and> stats_size (LRUCache_get_stats (store_cache (invalidate_pattern ''*'' s))) = 0
   \<and> matches_pattern key ''*''"
  using matches_trailing_star [of _ "[]"]
  by (simp add: invalidate_pattern_cache LRUCache_get_stats_def Let_def)

theorem invalidate_pattern_star_clears_witness:
  "cache (store_cache (invalidate_pattern ''*''
     \<lparr>user_store = (),
      store_cache = \<lparr>max_size = 3, default_ttl = 300,
        cache = [(''email:a@x.org'', \<lparr>entry_value = Flag True, entry_expiry = Inf_time\<rparr>),
                 (''*'', \<lparr>entry_value = Flag False, entry_expiry = Finite_time 7\<rparr>),
                 ('''', \<lparr>entry_value = Flag True, entry_expiry = Inf_time\<rparr>)],
        hits = 2, misses = 1, evictions = 0\<rparr>\<rparr>)) = []"
  using invalidate_pattern_star_clears by blast

text \<open>
  Claim C7. \<^verbatim>\<open>invalidate_pattern\<close> removes exactly the entries whose key matches
  the pattern: the entries that remain are the non-matching ones, in their order and
  with their values and expiries, and the counters and the backing store are not
  touched. A pattern without \<^verbatim>\<open>*\<close> matches by equality; \<^verbatim>\<open>a*\<close> matches the keys
  with prefix \<open>a\<close>, \<^verbatim>\<open>*b\<close> those with suffix \<open>b\<close>, and \<^verbatim>\<open>a*b\<close> those with
  prefix \<open>a\<close> and suffix \<open>b\<close>. The pattern \<^verbatim>\<open>email:*\<close> matches every email key and
  no id or duplicate key.
\<close>

theorem invalidate_pattern_frame:
  "cache (store_cache (invalidate_pattern p s)) =
     filter (\<lambda>q. \<not> matches_pattern (fst q) p) (cache (store_cache s))
   \<and> map_of (cache (store_cache (invalidate_pattern p s))) k =
       (if matches_pattern k p then None else map_of (cache (store_cache s)) k)
   \<and> user_store (invalidate_pattern p s) = user_store s
   \<and> hits (store_cache (invalidate_pattern p s)) = hits (store_cache s)
   \<and> misses (store_cache (invalidate_pattern p s)) = misses (store_cache s)
   \<and> evictions (store_cache (invalidate_pattern p s)) = evictions (store_cache s)
   \<and> (CHR ''*'' \<notin> set p \<longrightarrow> matches_pattern k p = (k = p))
   \<and> (CHR ''*'' \<notin> set a \<longrightarrow> matches_pattern k (a @ ''*'') = prefix a k)
   \<and> (CHR ''*'' \<notin> set b \<longrightarrow> matches_pattern k (''*'' @ b) = suffix b k)
   \<and> (CHR ''*'' \<notin> set a \<and> CHR ''*'' \<notin> set b \<longrightarrow>
        matches_pattern k (a @ ''*'' @ b) = (prefix a k \<and> suffix b k))
   \<and> matches_pattern k ''email:*'' = prefix ''email:'' k
   \<and> matches_pattern (email_key str_lower e) ''email:*''
   \<and> \<not> matches_pattern (id_key u) ''email:*''
   \<and> \<not> matches_pattern (duplicate_key str_lower e) ''email:*''"
proof -
  have c: "cache (store_cache (invalidate_pattern p s)) =
      filter (\<lambda>q. \<not> matches_pattern (fst q) p) (cache (store_cache s))"
    by (rule invalidate_pattern_cache)
  have m: "map_of (cache (store_cache (invalidate_pattern p s))) k =
       (if matches_pattern k p then None else map_of (cache (store_cache s)) k)"
    unfolding c
    by (rule trans [OF map_of_filter_fst [of "\<lambda>x. \<not> matches_pattern x p"]]) simp
  have f: "user_store (invalidate_pattern p s) = user_store s"
    "hits (store_cache (invalidate_pattern p s)) = hits (store_cache s)"
    "misses (store_cache (invalidate_pattern p s)) = misses (store_cache s)"
    "evictions (store_cache (invalidate_pattern p s)) = evictions (store_cache s)"
    by (simp_all add: invalidate_pattern_def Let_def)
  have s: "CHR ''*'' \<notin> set b \<longrightarrow> matches_pattern k (''*'' @ b) = suffix b k"
    using matches_middle_star [of "[]" b k] by simp
  have e: "\<And>x. matches_pattern x ''email:*'' = prefix ''email:'' x"
    using matches_trailing_star [of _ "''email:''"] by simp
  have e1: "matches_pattern (email_key str_lower e) ''email:*''"
    unfolding e by (simp add: email_key_def)
  have e2: "\<not> matches_pattern (id_key u) ''email:*''"
    unfolding e by (simp add: id_key_def)
  have e3: "\<not> matches_pattern (duplicate_key str_lower e) ''email:*''"
    unfolding e by (simp add: duplicate_key_def)
  show ?thesis
    using c m f s e e1 e2 e3 matches_no_star [of p k] matches_trailing_star [of k a]
      matches_middle_star [of a b k]
    by blast
qed

theorem invalidate_pattern_frame_witness:
  "cache (store_cache (invalidate_pattern ''email:*''
     \<lparr>user_store = (),
      store_cache = \<lparr>max_size = 10, default_ttl = 300,
        cache = [(''email:a@x.org'', \<lparr>entry_value = Flag True, entry_expiry = Inf_time\<rparr>),
                 (''id:1'', \<lparr>entry_value = Flag False, entry_expiry = Finite_time 7\<rparr>),
                 (''dup:a@x.org'', \<lparr>entry_value = Flag True, entry_expiry = Inf_time\<rparr>),
                 (''email:b@y.org'', \<lparr>entry_value = Flag True, entry_expiry = Finite_time 9\<rparr>)],
        hits = 2, misses = 1, evictions = 0\<rparr>\<rparr>))
   = [(''id:1'', \<lparr>entry_value = Flag False, entry_expiry = Finite_time 7\<rparr>),
      (''dup:a@x.org'', \<lparr>entry_value = Flag True, entry_expiry = Inf_time\<rparr>)]
   \<and> CHR ''*'' \<notin> set ''em'' \<and> CHR ''*'' \<notin> set ''il''
   \<and> matches_pattern ''email'' (''em'' @ ''*'' @ ''il'')
   \<and> \<not> matches_pattern ''emails'' (''em'' @ ''*'' @ ''il'')"
proof -
  let ?s = "\<lparr>user_store = (),
      store_cache = \<lparr>max_size = 10, default_ttl = 300,
        cache = [(''email:a@x.org'', \<lparr>entry_value = Flag True, entry_expiry = Inf_time\<rparr>),
                 (''id:1'', \<lparr>entry_value = Flag False, entry_expiry = Finite_time 7\<rparr>),
                 (''dup:a@x.org'', \<lparr>entry_value = Flag True, entry_expiry = Inf_time\<rparr>),
                 (''email:b@y.org'', \<lparr>entry_value = Flag True, entry_expiry = Finite_time 9\<rparr>)],
        hits = 2, misses = 1, evictions = 0\<rparr>\<rparr>"
  have c: "cache (store_cache (invalidate_pattern ''email:*'' ?s)) =
     filter (\<lambda>q. \<not> matches_pattern (fst q) ''email:*'') (cache (store_cache ?s))"
    by (rule conjunct1 [OF invalidate_pattern_frame])
  have e: "filter (\<lambda>q. \<not> matches_pattern (fst q) ''email:*'') (cache (store_cache ?s)) =
     [(''id:1'', \<lparr>entry_value = Flag False, entry_expiry = Finite_time 7\<rparr>),
      (''dup:a@x.org'', \<lparr>entry_value = Flag True, entry_expiry = Inf_time\<rparr>)]"
    by code_simp
  have m: "matches_pattern ''email'' (''em'' @ ''*'' @ ''il'')"
    "\<not> matches_pattern ''emails'' (''em'' @ ''*'' @ ''il'')"
    by code_simp+
  show ?thesis using c e m by simp
qed

subsection \<open>Capacity and eviction\<close>



subsection \<open>Construction\<close>

text \<open>
  Claim C2 says that the constructor rejects \<open>max_size = 0\<close> and every other
  non-positive capacity. \<^verbatim>\<open>LRUCache.__init__\<close> has no check: it stores the
  argument. The first theorem is the call \<^verbatim>\<open>LRUCache(max_size=0, default_ttl=300)\<close>,
  which returns a cache of capacity zero and raises nothing.
\<close>

theorem init_accepts_zero:
  "LRUCache_init 0 300 =
     (Inr \<lparr>max_size = 0, default_ttl = 300, cache = [], hits = 0, misses = 0, evictions = 0\<rparr>
        :: py_error + string LRUCache)"
  by (simp add: LRUCache_init_def)

text \<open>
  Claim C2, as the code has it. The constructor accepts every \<open>max_size\<close> and stores
  it unchanged, with an empty dictionary and counters at zero. A cache built with
  \<open>max_size \<le> 0\<close> is empty after any sequence of calls, and every \<^verbatim>\<open>set\<close> leaves
  it empty: a \<^verbatim>\<open>set\<close> that builds its entry inserts it, evicts it at once and
  counts the eviction; a \<^verbatim>\<open>set\<close> whose entry cannot be built raises and changes
  nothing.
\<close>

theorem init_accepts_every_size:
  "LRUCache_init ms dt =
     Inr \<lparr>max_size = ms, default_ttl = dt, cache = [], hits = 0, misses = 0, evictions = 0\<rparr>
   \<and> (\<forall>c0. ms \<le> 0 \<and> LRUCache_init ms dt = Inr c0 \<longrightarrow>
        (let c = run ops c0; r = LRUCache_set now k v ttl c
         in cache c = [] \<and> cache (snd r) = []
          \<and> (case CacheEntry_init now v (case ttl of None \<Rightarrow> default_ttl c | Some t \<Rightarrow> t) of
               Inl err \<Rightarrow> r = (Some err, c)
             | Inr e \<Rightarrow> r = (None, c\<lparr>evictions := evictions c + 1\<rparr>))))"
proof -
  have a: "LRUCache_init ms dt =
     Inr \<lparr>max_size = ms, default_ttl = dt, cache = [], hits = 0, misses = 0, evictions = 0\<rparr>"
    by (simp add: LRUCache_init_def)
  have b: "cache c = [] \<and> cache (snd r) = []
          \<and> (case CacheEntry_init now v (case ttl of None \<Rightarrow> default_ttl c | Some t \<Rightarrow> t) of
               Inl err \<Rightarrow> r = (Some err, c)
             | Inr e \<Rightarrow> r = (None, c\<lparr>evictions := evictions c + 1\<rparr>))"
    if ms: "ms \<le> 0" and init: "LRUCache_init ms dt = Inr c0"
      and c: "c = run ops c0" and r: "r = LRUCache_set now k v ttl c"
    for c0 c r
  proof -
    from init_cache [OF init] ms have "max_size c0 \<le> 0" and "cache c0 = []" by simp_all
    from run_empty [OF this, of ops] have e: "cache c = []" by (simp add: c)
    from init_cache [OF init] ms have mc: "max_size c \<le> 0" by (simp add: c)
    have e': "c\<lparr>cache := []\<rparr> = c" using e by simp
    have body: "(case CacheEntry_init now v (case ttl of None \<Rightarrow> default_ttl c | Some t \<Rightarrow> t) of
               Inl err \<Rightarrow> r = (Some err, c)
             | Inr e \<Rightarrow> r = (None, c\<lparr>evictions := evictions c + 1\<rparr>))"
    proof (cases "CacheEntry_init now v (case ttl of None \<Rightarrow> default_ttl c | Some t \<Rightarrow> t)")
      case (Inl err)
      from set_raises [OF this, of k] show ?thesis
        by (simp add: Inl r e e' od_delitem_def)
    next
      case (Inr en)
      from set_stores [OF this, of k] mc show ?thesis
        by (simp add: Inr r e e' od_delitem_def)
    qed
    from apply_op_empty [OF mc e, of "Set now k v ttl"] have "cache (snd r) = []"
      by (simp add: r)
    with e body show ?thesis by blast
  qed
  show ?thesis
    unfolding Let_def using a b by blast
qed

theorem init_accepts_every_size_witness:
  "LRUCache_init (- 2) 0 =
     (Inr \<lparr>max_size = - 2, default_ttl = 0, cache = [], hits = 0, misses = 0, evictions = 0\<rparr>
       :: py_error + nat LRUCache)
   \<and> LRUCache_set 10 ''k'' (7::nat) None
        (run [Set 1 ''a'' 11 None, Get 2 ''a'', Set 3 ''b'' 12 (Some 5)]
          \<lparr>max_size = - 2, default_ttl = 0, cache = [], hits = 0, misses = 0, evictions = 0\<rparr>)
      = (None, \<lparr>max_size = - 2, default_ttl = 0, cache = [], hits = 0, misses = 1,
                evictions = 3\<rparr>)"
proof -
  let ?c0 = "\<lparr>max_size = - 2, default_ttl = 0, cache = ([] :: nat odict),
              hits = 0, misses = 0, evictions = 0\<rparr>"
  let ?ops = "[Set 1 ''a'' (11::nat) None, Get 2 ''a'', Set 3 ''b'' 12 (Some 5)]"
  note t = init_accepts_every_size [where ms = "- 2" and dt = 0 and ops = ?ops and now = 10
      and k = "''k''" and v = "7::nat" and ttl = None]
  have i: "LRUCache_init (- 2) 0 = Inr ?c0"
    by (rule conjunct1 [OF t])
  have m: "(- 2::int) \<le> 0" by simp
  let ?c1 = "\<lparr>max_size = - 2, default_ttl = 0, cache = ([] :: nat odict),
              hits = 0, misses = 0, evictions = 1\<rparr>"
  let ?c2 = "\<lparr>max_size = - 2, default_ttl = 0, cache = ([] :: nat odict),
              hits = 0, misses = 1, evictions = 1\<rparr>"
  let ?c3 = "\<lparr>max_size = - 2, default_ttl = 0, cache = ([] :: nat odict),
              hits = 0, misses = 1, evictions = 2\<rparr>"
  have s1: "LRUCache_set 1 ''a'' (11::nat) None ?c0 = (None, ?c1)"
    by (simp add: LRUCache_set_def CacheEntry_init_def od_contains_def od_setitem_def
        od_popitem_first_def)
  have g: "LRUCache_get 2 ''a'' ?c1 = (None, ?c2)"
    by (simp add: LRUCache_get_def od_contains_def)
  have f5: "\<not> float_overflows 5" "\<not> float_overflows (3 + fl 5)"
    by (simp_all add: float_overflows_def fl_def floor_log2_def pow2_def round_half_even_def
        compute_floorlog)
  have s2: "LRUCache_set 3 ''b'' (12::nat) (Some 5) ?c2 = (None, ?c3)"
    using f5
    by (simp add: LRUCache_set_def CacheEntry_init_def float_of_int_def float_add_time_def
        od_contains_def od_setitem_def od_popitem_first_def)
  have rc: "run ?ops ?c0 = ?c3"
    unfolding run_def
    by (simp only: fold.simps o_apply id_apply apply_op.simps s1 g s2 snd_conv)
  have ce: "CacheEntry_init 10 (7::nat) 0 = Inr \<lparr>entry_value = 7, entry_expiry = Inf_time\<rparr>"
    by (simp add: CacheEntry_init_def)
  from conjunct2 [OF t] m i have
    "case CacheEntry_init 10 (7::nat) (case None of None \<Rightarrow> default_ttl (run ?ops ?c0) | Some t \<Rightarrow> t) of
       Inl err \<Rightarrow> LRUCache_set 10 ''k'' 7 None (run ?ops ?c0) = (Some err, run ?ops ?c0)
     | Inr e \<Rightarrow> LRUCache_set 10 ''k'' 7 None (run ?ops ?c0)
         = (None, (run ?ops ?c0)\<lparr>evictions := evictions (run ?ops ?c0) + 1\<rparr>)"
    unfolding Let_def by blast
  then have "LRUCache_set 10 ''k'' (7::nat) None (run ?ops ?c0)
      = (None, ?c3\<lparr>evictions := 3\<rparr>)"
    unfolding rc by (simp add: ce)
  with i show ?thesis by simp
qed

subsection \<open>Reading an entry\<close>

text \<open>
  Claim C4. A \<^verbatim>\<open>get\<close> on a present key whose entry has expired returns
  \<^verbatim>\<open>None\<close>, adds one to \<open>misses\<close> and nothing to \<open>hits\<close>, and removes the
  entry in the same call: the key is gone, the dictionary is one entry shorter, and
  \<^verbatim>\<open>get_stats\<close> reports a size one less. A \<^verbatim>\<open>get\<close> on a present key whose
  entry has not expired returns the stored value and adds one to \<open>hits\<close>.
\<close>

theorem get_expired_removes:
  assumes wf: "od_wf (cache c)" and e: "map_of (cache c) k = Some e"
  shows "(let r = fst (LRUCache_get now k c); c' = snd (LRUCache_get now k c) in
          if is_expired now e
          then r = None \<and> misses c' = misses c + 1 \<and> hits c' = hits c
             \<and> cache c' = od_delitem k (cache c)
             \<and> map_of (cache c') k = None
             \<and> int (length (cache c')) = int (length (cache c)) - 1
             \<and> stats_size (LRUCache_get_stats c') = stats_size (LRUCache_get_stats c) - 1
             \<and> stats_misses (LRUCache_get_stats c') = stats_misses (LRUCache_get_stats c) + 1
             \<and> stats_hits (LRUCache_get_stats c') = stats_hits (LRUCache_get_stats c)
          else r = Some (entry_value e) \<and> hits c' = hits c + 1 \<and> misses c' = misses c
             \<and> length (cache c') = length (cache c))"
proof -
  have len: "Suc (length (od_delitem k (cache c))) = length (cache c)"
    using wf e by (rule wf_length_delitem)
  have c: "od_contains k (cache c)" using e by (simp add: od_contains_def)
  show ?thesis
  proof (cases "is_expired now e")
    case True
    have g: "LRUCache_get now k c = (None, c\<lparr>cache := od_delitem k (cache c), misses := misses c + 1\<rparr>)"
      using c e True by (simp add: LRUCache_get_def)
    show ?thesis using True len
      by (simp add: g Let_def map_of_delitem LRUCache_get_stats_def)
  next
    case False
    have g: "LRUCache_get now k c = (Some (entry_value e), c\<lparr>cache := od_move_to_end k (cache c), hits := hits c + 1\<rparr>)"
      using c e False by (simp add: LRUCache_get_def)
    have m: "od_move_to_end k (cache c) = od_delitem k (cache c) @ [(k, e)]"
      using e by (simp add: od_move_to_end_def)
    show ?thesis using False len
      by (simp add: g m Let_def)
  qed
qed

theorem get_expired_removes_witness:
  "fst (LRUCache_get 20 ''k''
      \<lparr>max_size = 3, default_ttl = 300,
       cache = [(''k'', \<lparr>entry_value = (1::nat), entry_expiry = Finite_time 11\<rparr>), (''j'', \<lparr>entry_value = 2, entry_expiry = Inf_time\<rparr>)],
       hits = 0, misses = 0, evictions = 0\<rparr>) = None
   \<and> cache (snd (LRUCache_get 20 ''k''
      \<lparr>max_size = 3, default_ttl = 300,
       cache = [(''k'', \<lparr>entry_value = (1::nat), entry_expiry = Finite_time 11\<rparr>), (''j'', \<lparr>entry_value = 2, entry_expiry = Inf_time\<rparr>)],
       hits = 0, misses = 0, evictions = 0\<rparr>)) = [(''j'', \<lparr>entry_value = 2, entry_expiry = Inf_time\<rparr>)]
   \<and> misses (snd (LRUCache_get 20 ''k''
      \<lparr>max_size = 3, default_ttl = 300,
       cache = [(''k'', \<lparr>entry_value = (1::nat), entry_expiry = Finite_time 11\<rparr>), (''j'', \<lparr>entry_value = 2, entry_expiry = Inf_time\<rparr>)],
       hits = 0, misses = 0, evictions = 0\<rparr>)) = 1"
proof -
  let ?c = "\<lparr>max_size = 3, default_ttl = 300,
       cache = [(''k'', \<lparr>entry_value = (1::nat), entry_expiry = Finite_time 11\<rparr>), (''j'', \<lparr>entry_value = 2, entry_expiry = Inf_time\<rparr>)],
       hits = 0, misses = 0, evictions = 0\<rparr>"
  have wf: "od_wf (cache ?c)" by (simp add: od_wf_def)
  have e: "map_of (cache ?c) ''k'' = Some (\<lparr>entry_value = (1::nat), entry_expiry = Finite_time 11\<rparr>)" by simp
  have x: "is_expired 20 (\<lparr>entry_value = (1::nat), entry_expiry = Finite_time 11\<rparr>)"
    by (simp add: is_expired_def)
  have d: "od_delitem ''k'' (cache ?c) = [(''j'', \<lparr>entry_value = 2, entry_expiry = Inf_time\<rparr>)]"
    by (simp add: od_delitem_def)
  from get_expired_removes [OF wf e, of 20] x d show ?thesis
    by (simp add: Let_def)
qed

subsection \<open>Promotion on access\<close>

text \<open>
  Claim C3. A \<^verbatim>\<open>get\<close> on a present key whose entry has not expired returns the
  value, counts a hit and moves the entry to the end of the dictionary, which is the
  most recently used position; the other entries keep their order. In a cache built
  with \<open>max_size = 3\<close>, take three \<^verbatim>\<open>set\<close> calls on distinct keys \<open>a\<close>, \<open>b\<close>,
  \<open>cc\<close> with a ttl that never expires, then \<^verbatim>\<open>get(a)\<close>, then a \<^verbatim>\<open>set\<close> of a
  fourth key \<open>dd\<close>. The \<^verbatim>\<open>get\<close> returns the value of \<open>a\<close>, and the last
  \<^verbatim>\<open>set\<close> evicts \<open>b\<close> alone: the cache holds \<open>cc\<close>, \<open>a\<close> and \<open>dd\<close>, in
  this order.
\<close>

theorem lru_promotion:
  "(map_of (cache c) k = Some e \<and> \<not> is_expired now e \<longrightarrow>
      LRUCache_get now k c =
        (Some (entry_value e),
         c\<lparr>cache := od_delitem k (cache c) @ [(k, e)], hits := hits c + 1\<rparr>)
      \<and> last (cache (snd (LRUCache_get now k c))) = (k, e)
      \<and> butlast (cache (snd (LRUCache_get now k c))) = filter (\<lambda>p. fst p \<noteq> k) (cache c))
   \<and> (LRUCache_init 3 d = Inr c0 \<and> distinct [a, b, cc, dd]
        \<and> ta \<le> 0 \<and> tb \<le> 0 \<and> tc \<le> 0
        \<and> CacheEntry_init n5 vd (case td of None \<Rightarrow> d | Some t \<Rightarrow> t) = Inr ed \<longrightarrow>
      (let c3 = run [Set n1 a va (Some ta), Set n2 b vb (Some tb), Set n3 cc vc (Some tc)] c0;
           g = LRUCache_get n4 a c3;
           s = LRUCache_set n5 dd vd td (snd g)
       in cache c3 = [(a, \<lparr>entry_value = va, entry_expiry = Inf_time\<rparr>),
                      (b, \<lparr>entry_value = vb, entry_expiry = Inf_time\<rparr>),
                      (cc, \<lparr>entry_value = vc, entry_expiry = Inf_time\<rparr>)]
        \<and> fst g = Some va
        \<and> cache (snd g) = [(b, \<lparr>entry_value = vb, entry_expiry = Inf_time\<rparr>),
                            (cc, \<lparr>entry_value = vc, entry_expiry = Inf_time\<rparr>),
                            (a, \<lparr>entry_value = va, entry_expiry = Inf_time\<rparr>)]
        \<and> fst s = None
        \<and> cache (snd s) = [(cc, \<lparr>entry_value = vc, entry_expiry = Inf_time\<rparr>),
                            (a, \<lparr>entry_value = va, entry_expiry = Inf_time\<rparr>),
                            (dd, ed)]
        \<and> evictions (snd s) = 1
        \<and> \<not> od_contains b (cache (snd s))))"
proof -
  have p1: "LRUCache_get now k c =
        (Some (entry_value e),
         c\<lparr>cache := od_delitem k (cache c) @ [(k, e)], hits := hits c + 1\<rparr>)
      \<and> last (cache (snd (LRUCache_get now k c))) = (k, e)
      \<and> butlast (cache (snd (LRUCache_get now k c))) = filter (\<lambda>p. fst p \<noteq> k) (cache c)"
    if "map_of (cache c) k = Some e" and "\<not> is_expired now e"
    using get_hit [OF that] by (simp add: od_delitem_def)
  have p2: "(let c3 = run [Set n1 a va (Some ta), Set n2 b vb (Some tb), Set n3 cc vc (Some tc)] c0;
           g = LRUCache_get n4 a c3;
           s = LRUCache_set n5 dd vd td (snd g)
       in cache c3 = [(a, \<lparr>entry_value = va, entry_expiry = Inf_time\<rparr>),
                      (b, \<lparr>entry_value = vb, entry_expiry = Inf_time\<rparr>),
                      (cc, \<lparr>entry_value = vc, entry_expiry = Inf_time\<rparr>)]
        \<and> fst g = Some va
        \<and> cache (snd g) = [(b, \<lparr>entry_value = vb, entry_expiry = Inf_time\<rparr>),
                            (cc, \<lparr>entry_value = vc, entry_expiry = Inf_time\<rparr>),
                            (a, \<lparr>entry_value = va, entry_expiry = Inf_time\<rparr>)]
        \<and> fst s = None
        \<and> cache (snd s) = [(cc, \<lparr>entry_value = vc, entry_expiry = Inf_time\<rparr>),
                            (a, \<lparr>entry_value = va, entry_expiry = Inf_time\<rparr>),
                            (dd, ed)]
        \<and> evictions (snd s) = 1
        \<and> \<not> od_contains b (cache (snd s)))"
    if init: "LRUCache_init 3 d = Inr c0" and dist: "distinct [a, b, cc, dd]"
      and ta: "ta \<le> 0" and tb: "tb \<le> 0" and tc: "tc \<le> 0"
      and ed: "CacheEntry_init n5 vd (case td of None \<Rightarrow> d | Some t \<Rightarrow> t) = Inr ed"
  proof -
    from dist have dist: "a \<noteq> b" "a \<noteq> cc" "a \<noteq> dd" "b \<noteq> cc" "b \<noteq> dd" "cc \<noteq> dd"
      "b \<noteq> a" "cc \<noteq> a" "dd \<noteq> a" "cc \<noteq> b" "dd \<noteq> b" "dd \<noteq> cc"
      by auto
    let ?ea = "\<lparr>entry_value = va, entry_expiry = Inf_time\<rparr>"
    let ?eb = "\<lparr>entry_value = vb, entry_expiry = Inf_time\<rparr>"
    let ?ec = "\<lparr>entry_value = vc, entry_expiry = Inf_time\<rparr>"
    from init have c0: "c0 = \<lparr>max_size = 3, default_ttl = d, cache = [], hits = 0, misses = 0,
        evictions = 0\<rparr>"
      by (simp add: LRUCache_init_def)
    define c1 where "c1 = c0\<lparr>cache := [(a, ?ea)]\<rparr>"
    define c2 where "c2 = c0\<lparr>cache := [(a, ?ea), (b, ?eb)]\<rparr>"
    define c3 where "c3 = c0\<lparr>cache := [(a, ?ea), (b, ?eb), (cc, ?ec)]\<rparr>"
    define c4 where "c4 = c0\<lparr>cache := [(b, ?eb), (cc, ?ec), (a, ?ea)], hits := 1\<rparr>"
    define c5 where "c5 = c0\<lparr>cache := [(cc, ?ec), (a, ?ea), (dd, ed)], hits := 1,
        evictions := 1\<rparr>"
    have s1: "LRUCache_set n1 a va (Some ta) c0 = (None, c1)"
      by (simp add: set_never_expires [OF ta] c0 c1_def od_delitem_def)
    have s2: "LRUCache_set n2 b vb (Some tb) c1 = (None, c2)"
      using dist by (simp add: set_never_expires [OF tb] c0 c1_def c2_def od_delitem_def)
    have s3: "LRUCache_set n3 cc vc (Some tc) c2 = (None, c3)"
      using dist by (simp add: set_never_expires [OF tc] c0 c2_def c3_def od_delitem_def)
    have r3: "run [Set n1 a va (Some ta), Set n2 b vb (Some tb), Set n3 cc vc (Some tc)] c0 = c3"
      by (simp add: run_def s1 s2 s3)
    have m: "map_of (cache c3) a = Some ?ea" by (simp add: c3_def)
    have ne: "\<not> is_expired n4 ?ea" by (simp add: is_expired_def)
    have g: "LRUCache_get n4 a c3 = (Some va, c4)"
      unfolding get_hit [OF m ne]
      using dist by (simp add: c3_def c4_def c0 od_delitem_def)
    have dt: "default_ttl c4 = d" by (simp add: c4_def c0)
    have ed': "CacheEntry_init n5 vd (case td of None \<Rightarrow> default_ttl c4 | Some t \<Rightarrow> t) = Inr ed"
      unfolding dt by (rule ed)
    have s: "LRUCache_set n5 dd vd td c4 = (None, c5)"
      unfolding set_stores [OF ed']
      using dist by (simp add: c4_def c5_def c0 od_delitem_def)
    have nb: "\<not> od_contains b (cache c5)"
      using dist by (auto simp: c5_def od_contains_def)
    show ?thesis
      unfolding Let_def r3 g s snd_conv fst_conv
      using nb by (simp add: c3_def c4_def c5_def c0)
  qed
  show ?thesis using p1 p2 by blast
qed

theorem lru_promotion_witness:
  "cache (snd (LRUCache_set 5 ''D'' (4::nat) (Some 0) (snd (LRUCache_get 4 ''A''
      (run [Set 1 ''A'' 1 (Some 0), Set 2 ''B'' 2 (Some 0), Set 3 ''C'' 3 (Some 0)]
        \<lparr>max_size = 3, default_ttl = 300, cache = [], hits = 0, misses = 0, evictions = 0\<rparr>)))))
   = [(''C'', \<lparr>entry_value = 3, entry_expiry = Inf_time\<rparr>),
      (''A'', \<lparr>entry_value = 1, entry_expiry = Inf_time\<rparr>),
      (''D'', \<lparr>entry_value = 4, entry_expiry = Inf_time\<rparr>)]"
proof -
  let ?c0 = "\<lparr>max_size = 3, default_ttl = 300, cache = ([] :: nat odict),
              hits = 0, misses = 0, evictions = 0\<rparr>"
  have i: "LRUCache_init 3 300 = Inr ?c0" by (simp add: LRUCache_init_def)
  have d: "distinct [''A'', ''B'', ''C'', ''D'']" by simp
  have z: "(0::int) \<le> 0" by simp
  have e: "CacheEntry_init 5 (4::nat) (case Some 0 of None \<Rightarrow> 300 | Some t \<Rightarrow> t)
      = Inr \<lparr>entry_value = 4, entry_expiry = Inf_time\<rparr>"
    by (simp add: CacheEntry_init_def)
  from conjunct2 [OF lru_promotion [where d = 300 and ?c0.0 = ?c0 and a = "''A''" and b = "''B''"
      and cc = "''C''" and dd = "''D''" and ta = 0 and tb = 0 and tc = 0 and ?n5.0 = 5
      and vd = "4::nat" and td = "Some 0" and ed = "\<lparr>entry_value = 4, entry_expiry = Inf_time\<rparr>"
      and ?n1.0 = 1 and ?n2.0 = 2 and ?n3.0 = 3 and ?n4.0 = 4 and va = 1 and vb = 2 and vc = 3]]
    i d z e
  show ?thesis
    unfolding Let_def by blast
qed

subsection \<open>Time to live\<close>

text \<open>
  Claim C5. An entry built with \<open>ttl \<le> 0\<close> has the expiry \<^verbatim>\<open>inf\<close>, and
  \<^verbatim>\<open>is_expired\<close> is false for it at every instant. Stored by \<^verbatim>\<open>set\<close> in a cache
  of capacity at least one, the entry stays under its key through any sequence of
  \<^verbatim>\<open>get\<close> and \<^verbatim>\<open>cleanup_expired\<close> calls, whatever the clock reads:
  \<^verbatim>\<open>cleanup_expired\<close> does not list the key, and a later \<^verbatim>\<open>get\<close> returns the
  value. An entry built with \<open>ttl > 0\<close> has for expiry the float sum of the clock
  reading and \<open>ttl\<close>; a \<open>ttl\<close> too large for a float raises \<^verbatim>\<open>OverflowError\<close>.
  For \<open>ttl\<close> below \<open>2 ^ 53\<close> the expiry is the float nearest to the exact sum
  \<open>now + ttl\<close>, which differs from the sum by the rounding of one float operation
  at most.
\<close>

theorem infinite_ttl:
  "(ttl \<le> 0 \<longrightarrow>
      CacheEntry_init now v ttl = Inr \<lparr>entry_value = v, entry_expiry = Inf_time\<rparr>
      \<and> \<not> is_expired later \<lparr>entry_value = v, entry_expiry = Inf_time\<rparr>)
   \<and> (0 < ttl \<longrightarrow>
      CacheEntry_init now v ttl =
        (if float_overflows (of_int ttl) then Inl OverflowError
         else Inr \<lparr>entry_value = v,
                   entry_expiry = (if float_overflows (now + fl (of_int ttl)) then Inf_time
                                   else Finite_time (fl (now + fl (of_int ttl))))\<rparr>))
   \<and> (0 < ttl \<and> ttl < 2 ^ 53 \<and> \<not> float_overflows (now + of_int ttl) \<longrightarrow>
      CacheEntry_init now v ttl =
        Inr \<lparr>entry_value = v, entry_expiry = Finite_time (fl (now + of_int ttl))\<rparr>
      \<and> \<bar>fl (now + of_int ttl) - (now + of_int ttl)\<bar>
          \<le> max (\<bar>now + of_int ttl\<bar> / 2 ^ 53) (pow2 (- 1075)))
   \<and> (ttl \<le> 0 \<and> 1 \<le> max_size c \<and> od_wf (cache c) \<and> (\<forall>op \<in> set ops. reads_only op) \<longrightarrow>
      (let c1 = snd (LRUCache_set now k v (Some ttl) c); c2 = run ops c1
       in fst (LRUCache_set now k v (Some ttl) c) = None
        \<and> map_of (cache c1) k = Some \<lparr>entry_value = v, entry_expiry = Inf_time\<rparr>
        \<and> map_of (cache c2) k = Some \<lparr>entry_value = v, entry_expiry = Inf_time\<rparr>
        \<and> fst (LRUCache_get later k c2) = Some v
        \<and> k \<notin> set (expired_keys clk 0 (cache c2))))"
proof -
  let ?e = "\<lparr>entry_value = v, entry_expiry = Inf_time\<rparr>"
  have p1: "ttl \<le> 0 \<longrightarrow> CacheEntry_init now v ttl = Inr ?e \<and> \<not> is_expired later ?e"
    by (simp add: CacheEntry_init_def is_expired_def)
  have p2: "0 < ttl \<longrightarrow>
      CacheEntry_init now v ttl =
        (if float_overflows (of_int ttl) then Inl OverflowError
         else Inr \<lparr>entry_value = v,
                   entry_expiry = (if float_overflows (now + fl (of_int ttl)) then Inf_time
                                   else Finite_time (fl (now + fl (of_int ttl))))\<rparr>)"
    by (simp add: CacheEntry_init_def float_of_int_def float_add_time_def)
  have p3: "CacheEntry_init now v ttl =
        Inr \<lparr>entry_value = v, entry_expiry = Finite_time (fl (now + of_int ttl))\<rparr>
      \<and> \<bar>fl (now + of_int ttl) - (now + of_int ttl)\<bar>
          \<le> max (\<bar>now + of_int ttl\<bar> / 2 ^ 53) (pow2 (- 1075))"
    if t: "0 < ttl" "ttl < 2 ^ 53" and no: "\<not> float_overflows (now + of_int ttl)"
  proof -
    from t have "\<bar>ttl\<bar> < 2 ^ 53" by simp
    then have f: "fl (of_int ttl) = of_int ttl" by (rule fl_of_int)
    from t have "\<bar>real_of_int ttl\<bar> < 2 ^ 53"
      by (simp add: of_int_less_numeral_power_cancel_iff)
    also have "(2::real) ^ 53 \<le> 2 ^ 1024 - 2 ^ 970" by simp
    finally have "\<not> float_overflows (of_int ttl)" by (simp add: float_overflows_def)
    with t no f have "CacheEntry_init now v ttl =
        Inr \<lparr>entry_value = v, entry_expiry = Finite_time (fl (now + of_int ttl))\<rparr>"
      by (simp add: CacheEntry_init_def float_of_int_def float_add_time_def)
    with fl_error [of "now + of_int ttl"] show ?thesis by blast
  qed
  have p4: "(let c1 = snd (LRUCache_set now k v (Some ttl) c); c2 = run ops c1
       in fst (LRUCache_set now k v (Some ttl) c) = None
        \<and> map_of (cache c1) k = Some ?e
        \<and> map_of (cache c2) k = Some ?e
        \<and> fst (LRUCache_get later k c2) = Some v
        \<and> k \<notin> set (expired_keys clk 0 (cache c2)))"
    if t: "ttl \<le> 0" and m: "1 \<le> max_size c" and wf: "od_wf (cache c)"
      and r: "\<forall>op \<in> set ops. reads_only op"
  proof -
    define c1 where "c1 = snd (LRUCache_set now k v (Some ttl) c)"
    define c2 where "c2 = run ops c1"
    from t have e: "CacheEntry_init now v (case Some ttl of None \<Rightarrow> default_ttl c | Some t \<Rightarrow> t)
        = Inr ?e"
      by (simp add: CacheEntry_init_def)
    from set_stores [OF e, of k] have r0: "fst (LRUCache_set now k v (Some ttl) c) = None"
      by simp
    from set_stores_entry [OF e m] have m1: "map_of (cache c1) k = Some ?e"
      by (simp add: c1_def)
    from wf have wf1: "od_wf (cache c1)" unfolding c1_def by (rule wf_set)
    have inf: "entry_expiry ?e = Inf_time" by simp
    from reads_keep_entry [OF wf1 m1 inf r] have m2: "map_of (cache c2) k = Some ?e"
      by (simp add: c2_def)
    have ne: "\<not> is_expired later ?e" by (simp add: is_expired_def)
    from get_hit [OF m2 ne] have g: "fst (LRUCache_get later k c2) = Some v" by simp
    have wf2: "od_wf (cache c2)" unfolding c2_def using wf1 by (rule run_wf)
    have x: "k \<notin> set (expired_keys clk 0 (cache c2))"
    proof
      assume "k \<in> set (expired_keys clk 0 (cache c2))"
      from expired_keys_sound [OF this] obtain e' j
        where in_d: "(k, e') \<in> set (cache c2)" and ex: "is_expired (clk j) e'" by blast
      from wf2 in_d have "map_of (cache c2) k = Some e'"
        unfolding od_wf_def by (rule map_of_is_SomeI)
      with m2 have "e' = ?e" by simp
      with ex show False by (simp add: is_expired_def)
    qed
    show ?thesis
      unfolding Let_def c1_def [symmetric] c2_def [symmetric]
      using r0 m1 m2 g x by blast
  qed
  show ?thesis using p1 p2 p3 p4 by blast
qed

theorem infinite_ttl_witness:
  "CacheEntry_init 1000 (7::nat) 300 = Inr \<lparr>entry_value = 7, entry_expiry = Finite_time 1300\<rparr>
   \<and> CacheEntry_init 1000 (7::nat) (- 5) = Inr \<lparr>entry_value = 7, entry_expiry = Inf_time\<rparr>
   \<and> fst (LRUCache_get 1000000000000 ''k''
        (run [Get 1000000 ''k'', Cleanup_expired (\<lambda>i. 2000000), Get 3000000 ''j'']
          (snd (LRUCache_set 10 ''k'' (7::nat) (Some 0)
            \<lparr>max_size = 2, default_ttl = 300,
             cache = [(''j'', \<lparr>entry_value = 5, entry_expiry = Finite_time 11\<rparr>)],
             hits = 0, misses = 0, evictions = 0\<rparr>)))) = Some 7"
proof -
  let ?c = "\<lparr>max_size = 2, default_ttl = 300,
             cache = [(''j'', \<lparr>entry_value = (5::nat), entry_expiry = Finite_time 11\<rparr>)],
             hits = 0, misses = 0, evictions = 0\<rparr>"
  let ?ops = "[Get 1000000 ''k'', Cleanup_expired (\<lambda>i. 2000000), Get 3000000 ''j'']
      :: nat cache_op list"
  have a: "CacheEntry_init 1000 (7::nat) 300
      = Inr \<lparr>entry_value = 7, entry_expiry = Finite_time 1300\<rparr>"
  proof -
    have h: "(0::int) < 300 \<and> (300::int) < 2 ^ 53 \<and> \<not> float_overflows (1000 + of_int 300)"
      by (simp add: float_overflows_def)
    from fl_of_int [of 1300] have f: "fl 1300 = 1300" by simp
    from infinite_ttl [where ttl = 300 and now = 1000 and v = "7::nat"] h
    have "CacheEntry_init 1000 (7::nat) 300
        = Inr \<lparr>entry_value = 7, entry_expiry = Finite_time (fl (1000 + of_int 300))\<rparr>"
      by blast
    then show ?thesis by (simp add: f)
  qed
  have b: "CacheEntry_init 1000 (7::nat) (- 5) = Inr \<lparr>entry_value = 7, entry_expiry = Inf_time\<rparr>"
  proof -
    have h: "(- 5::int) \<le> 0" by simp
    from infinite_ttl [where ttl = "- 5" and now = 1000 and v = "7::nat"] h
    show ?thesis by blast
  qed
  have c: "fst (LRUCache_get 1000000000000 ''k''
        (run ?ops (snd (LRUCache_set 10 ''k'' (7::nat) (Some 0) ?c)))) = Some 7"
  proof -
    have h: "(0::int) \<le> 0 \<and> 1 \<le> max_size ?c \<and> od_wf (cache ?c)
        \<and> (\<forall>op \<in> set ?ops. reads_only op)"
      by (simp add: od_wf_def)
    from infinite_ttl [where ttl = 0 and now = 10 and v = "7::nat" and c = ?c and ops = ?ops
        and k = "''k''" and later = 1000000000000] h
    show ?thesis unfolding Let_def by blast
  qed
  from a b c show ?thesis by blast
qed

subsection \<open>Statistics\<close>

text \<open>
  Claim C8. \<^verbatim>\<open>get_stats\<close> reports as \<^verbatim>\<open>hit_rate\<close> the value of
  \<^verbatim>\<open>round(hits / (hits + misses) * 100, 2)\<close>, computed in floats, and 0 when there
  has been no request. The value is the float nearest to a decimal with two places,
  and it differs from the exact percentage by at most 0.005 and the rounding of the
  float operations, which is below \<open>10 ^ (-13)\<close>. After one hit and one miss it is
  50. \<^verbatim>\<open>clear\<close> sets \<open>hits\<close>, \<open>misses\<close> and \<open>evictions\<close> to zero and empties
  the cache, after which the hit rate is 0.
\<close>

theorem hit_rate_arithmetic:
  "stats_hit_rate (LRUCache_get_stats c) =
     (if hits c + misses c > 0
      then py_round2 (fl (fl (real (hits c) / real (hits c + misses c)) * 100)) else 0)
   \<and> py_round2 x = fl (real_of_int (round_half_even (x * 100)) / 100)
   \<and> \<bar>real_of_int (round_half_even (x * 100)) / 100 - x\<bar> \<le> 1 / 200
   \<and> (hits c + misses c > 0 \<longrightarrow>
        \<bar>stats_hit_rate (LRUCache_get_stats c)
           - real (hits c) / real (hits c + misses c) * 100\<bar> \<le> 1 / 200 + 1 / 10 ^ 13)
   \<and> (hits c = 1 \<and> misses c = 1 \<longrightarrow> stats_hit_rate (LRUCache_get_stats c) = 50)
   \<and> (hits c + misses c = 0 \<longrightarrow> stats_hit_rate (LRUCache_get_stats c) = 0)
   \<and> hits (LRUCache_clear c) = 0 \<and> misses (LRUCache_clear c) = 0
   \<and> evictions (LRUCache_clear c) = 0 \<and> cache (LRUCache_clear c) = []
   \<and> stats_hit_rate (LRUCache_get_stats (LRUCache_clear c)) = 0"
proof -
  have a: "stats_hit_rate (LRUCache_get_stats c) =
     (if hits c + misses c > 0
      then py_round2 (fl (fl (real (hits c) / real (hits c + misses c)) * 100)) else 0)"
    by (simp add: LRUCache_get_stats_def Let_def py_round2_0)
  have b: "py_round2 x = fl (real_of_int (round_half_even (x * 100)) / 100)"
    by (simp add: py_round2_def)
  have "\<bar>real_of_int (round_half_even (x * 100)) - x * 100\<bar> \<le> 1 / 2"
    by (rule round_half_even_near)
  then have n: "\<bar>real_of_int (round_half_even (x * 100)) / 100 - x\<bar> \<le> 1 / 200"
    by (simp add: abs_le_iff field_simps)
  have g: "\<bar>stats_hit_rate (LRUCache_get_stats c)
           - real (hits c) / real (hits c + misses c) * 100\<bar> \<le> 1 / 200 + 1 / 10 ^ 13"
    if "hits c + misses c > 0"
  proof -
    from that have "stats_hit_rate (LRUCache_get_stats c)
        = py_round2 (fl (fl (real (hits c) / real (hits c + misses c)) * 100))"
      by (simp add: a)
    with hit_rate_near [OF that, of "hits c"] show ?thesis by simp
  qed
  have f: "stats_hit_rate (LRUCache_get_stats c) = 50" if "hits c = 1" "misses c = 1"
    using that by (simp add: LRUCache_get_stats_def Let_def fl_half fl_50 py_round2_50)
  have z: "stats_hit_rate (LRUCache_get_stats c) = 0" if "hits c + misses c = 0"
    using that by (simp add: LRUCache_get_stats_def Let_def py_round2_0)
  have cl: "hits (LRUCache_clear c) = 0 \<and> misses (LRUCache_clear c) = 0
     \<and> evictions (LRUCache_clear c) = 0 \<and> cache (LRUCache_clear c) = []"
    by (simp add: LRUCache_clear_def)
  have cz: "stats_hit_rate (LRUCache_get_stats (LRUCache_clear c)) = 0"
    by (simp add: LRUCache_get_stats_def LRUCache_clear_def Let_def py_round2_0)
  show ?thesis using a b n g f z cl cz by blast
qed

theorem hit_rate_arithmetic_witness:
  "stats_hit_rate (LRUCache_get_stats
      (run [Set 1 ''a'' (7::nat) None, Get 2 ''a'', Get 3 ''b'']
        \<lparr>max_size = 2, default_ttl = 0, cache = [], hits = 0, misses = 0, evictions = 0\<rparr>)) = 50"
proof -
  let ?c = "run [Set 1 ''a'' (7::nat) None, Get 2 ''a'', Get 3 ''b'']
        \<lparr>max_size = 2, default_ttl = 0, cache = [], hits = 0, misses = 0, evictions = 0\<rparr>"
  have h: "hits ?c = 1" by code_simp
  have m: "misses ?c = 1" by code_simp
  from hit_rate_arithmetic [of ?c] h m show ?thesis by blast
qed

end
